theory Spec2Isabelle
  imports Main "HOL-Library.Monad_Syntax"
begin

section \<open>The scanner (class Lexer)\<close>

text \<open>
  A token is the pair \<open>(token_type, value)\<close> that \<open>Lexer.tokenize\<close> appends and
  \<open>Parser\<close> reads. Source text is a list of characters with code points below 256; the
  character classes below are the ones Python's \<open>re\<close> module and \<open>str.lstrip\<close> use for
  \<open>str\<close> arguments, restricted to that range.
\<close>

type_synonym token = "string \<times> string"

definition is_digit :: "char \<Rightarrow> bool" where
  \<comment> \<open>the class \<open>\d\<close>\<close>
  "is_digit c = (let n = (of_char c :: nat) in 48 \<le> n \<and> n \<le> 57)"

definition is_ident_start :: "char \<Rightarrow> bool" where
  \<comment> \<open>the class \<open>[a-zA-Z_]\<close>\<close>
  "is_ident_start c =
     (let n = (of_char c :: nat) in (97 \<le> n \<and> n \<le> 122) \<or> (65 \<le> n \<and> n \<le> 90) \<or> n = 95)"

definition is_ident_char :: "char \<Rightarrow> bool" where
  \<comment> \<open>the class \<open>[a-zA-Z0-9_]\<close>\<close>
  "is_ident_char c =
     (let n = (of_char c :: nat)
      in (97 \<le> n \<and> n \<le> 122) \<or> (65 \<le> n \<and> n \<le> 90) \<or> (48 \<le> n \<and> n \<le> 57) \<or> n = 95)"

definition is_word :: "char \<Rightarrow> bool" where
  \<comment> \<open>the class \<open>\w\<close>: alphanumeric code points and the underscore\<close>
  "is_word c =
     (let n = (of_char c :: nat)
      in (48 \<le> n \<and> n \<le> 57) \<or> (65 \<le> n \<and> n \<le> 90) \<or> n = 95 \<or> (97 \<le> n \<and> n \<le> 122)
         \<or> n = 170 \<or> n = 178 \<or> n = 179 \<or> n = 181 \<or> n = 185 \<or> n = 186
         \<or> (188 \<le> n \<and> n \<le> 190) \<or> (192 \<le> n \<and> n \<le> 214) \<or> (216 \<le> n \<and> n \<le> 246)
         \<or> 248 \<le> n)"

definition is_space :: "char \<Rightarrow> bool" where
  \<comment> \<open>the class \<open>\s\<close>, which is also what \<open>str.lstrip()\<close> removes\<close>
  "is_space c =
     (let n = (of_char c :: nat)
      in (9 \<le> n \<and> n \<le> 13) \<or> (28 \<le> n \<and> n \<le> 32) \<or> n = 133 \<or> n = 160)"

definition at_boundary :: "string \<Rightarrow> nat \<Rightarrow> bool" where
  \<comment> \<open>\<open>\b\<close> at position \<open>i\<close> of \<open>s\<close>: exactly one side is a word character\<close>
  "at_boundary s i =
     ((0 < i \<and> i \<le> length s \<and> is_word (s ! (i - 1))) \<noteq> (i < length s \<and> is_word (s ! i)))"

text \<open>
  \<open>re.match\<close> anchors the pattern at position 0 and backtracks. An alternation tries
  its branches from left to right and keeps the first one after which the rest of the
  pattern (the test \<open>ok\<close> on the end position) succeeds.
\<close>

fun first_alt :: "string list \<Rightarrow> (nat \<Rightarrow> bool) \<Rightarrow> string \<Rightarrow> nat option" where
  "first_alt [] ok s = None"
| "first_alt (k # ks) ok s =
     (if take (length k) s = k \<and> ok (length k) then Some (length k) else first_alt ks ok s)"

text \<open>
  A greedy repetition that has matched up to position \<open>lo + n\<close> offers the rest of the
  pattern \<open>k\<close> the longest end first and gives back one character at a time.
\<close>

fun backtrack :: "nat \<Rightarrow> nat \<Rightarrow> (nat \<Rightarrow> nat option) \<Rightarrow> nat option" where
  "backtrack lo 0 k = k lo"
| "backtrack lo (Suc n) k =
     (case k (lo + Suc n) of Some e \<Rightarrow> Some e | None \<Rightarrow> backtrack lo n k)"

definition boundary_end :: "string \<Rightarrow> nat \<Rightarrow> nat option" where
  \<comment> \<open>a pattern that ends in \<open>\b\<close>\<close>
  "boundary_end s p = (if at_boundary s p then Some p else None)"

definition keyword_alts :: "string list" where
  "keyword_alts = [''int'', ''float'', ''double'', ''char'', ''return'', ''if'', ''else'', ''for'',
     ''while'', ''namespace'', ''template'', ''include'', ''define'']"

definition match_keyword :: "string \<Rightarrow> nat option" where
  \<comment> \<open>\<open>\b(?:int|float|double|char|return|if|else|for|while|namespace|template|include|define)\b\<close>\<close>
  "match_keyword s = (if at_boundary s 0 then first_alt keyword_alts (at_boundary s) s else None)"

definition match_identifier :: "string \<Rightarrow> nat option" where
  \<comment> \<open>\<open>\b[a-zA-Z_][a-zA-Z0-9_]*\b\<close>\<close>
  "match_identifier s =
     (if at_boundary s 0 \<and> s \<noteq> [] \<and> is_ident_start (hd s)
      then backtrack 1 (length (takeWhile is_ident_char (drop 1 s))) (boundary_end s)
      else None)"

definition match_preprocessor :: "string \<Rightarrow> nat option" where
  \<comment> \<open>\<open>#\s*(?:include|define)\b\<close>\<close>
  "match_preprocessor s =
     (if s \<noteq> [] \<and> hd s = CHR ''#''
      then backtrack 1 (length (takeWhile is_space (drop 1 s)))
             (\<lambda>p. map_option (\<lambda>n. p + n)
                    (first_alt [''include'', ''define''] (\<lambda>n. at_boundary s (p + n)) (drop p s)))
      else None)"

definition match_constant_float :: "string \<Rightarrow> nat option" where
  \<comment> \<open>\<open>\b\d+\.\d+\b\<close>\<close>
  "match_constant_float s =
     (let n1 = length (takeWhile is_digit s)
      in if at_boundary s 0 \<and> 0 < n1
         then backtrack 1 (n1 - 1)
                (\<lambda>p. let n2 = length (takeWhile is_digit (drop (p + 1) s))
                      in if p < length s \<and> s ! p = CHR ''.'' \<and> 0 < n2
                         then backtrack (p + 2) (n2 - 1) (boundary_end s)
                         else None)
         else None)"

definition match_constant_int :: "string \<Rightarrow> nat option" where
  \<comment> \<open>\<open>\b\d+\b\<close>\<close>
  "match_constant_int s =
     (let n1 = length (takeWhile is_digit s)
      in if at_boundary s 0 \<and> 0 < n1 then backtrack 1 (n1 - 1) (boundary_end s) else None)"

definition operators :: "string list" where
  \<comment> \<open>the alternatives of OPERATOR in their order; the last thirteen are the class \<open>[+\-*/=<>!&|%^~]\<close>\<close>
  "operators = [''=='', ''!='', ''<='', ''>='', ''++'', ''--'', ''+='', ''-='', ''*='', ''/='',
     ''&&'', ''||'', ''<<'', ''>>'',
     ''+'', ''-'', ''*'', ''/'', ''='', ''<'', ''>'', ''!'', ''&'', ''|'', ''%'', ''^'', ''~'']"

definition match_operator :: "string \<Rightarrow> nat option" where
  \<comment> \<open>\<open>(==|!=|<=|>=|\+\+|--|\+=|-=|\*=|/=|&&|\|\||<<|>>|[+\-*/=<>!&|%^~])\<close>\<close>
  "match_operator s = first_alt operators (\<lambda>_. True) s"

definition match_punctuator :: "string \<Rightarrow> nat option" where
  \<comment> \<open>\<open>[{}();,<>]\<close>\<close>
  "match_punctuator s = (if s \<noteq> [] \<and> hd s \<in> set ''{}();,<>'' then Some 1 else None)"

fun string_items :: "string \<Rightarrow> nat option" where
  \<comment> \<open>\<open>(?:\\.|[^"\\])*"\<close>: another item first, the closing quote when that fails\<close>
  "string_items [] = None"
| "string_items (c # cs) =
     (case (if c = CHR 0x5C
            then (case cs of
                    [] \<Rightarrow> None
                  | d # ds \<Rightarrow> if d \<noteq> CHR 0x0A then map_option (\<lambda>n. n + 2) (string_items ds) else None)
            else if c \<noteq> CHR 0x22 then map_option Suc (string_items cs) else None) of
        Some n \<Rightarrow> Some n
      | None \<Rightarrow> if c = CHR 0x22 then Some 1 else None)"

definition match_string_literal :: "string \<Rightarrow> nat option" where
  \<comment> \<open>\<open>"(?:\\.|[^"\\])*"\<close>\<close>
  "match_string_literal s =
     (case s of [] \<Rightarrow> None
      | c # cs \<Rightarrow> if c = CHR 0x22 then map_option Suc (string_items cs) else None)"

definition match_comment_single :: "string \<Rightarrow> nat option" where
  \<comment> \<open>\<open>//.*\<close>, where the dot is any character but the newline\<close>
  "match_comment_single s =
     (if take 2 s = ''//'' then Some (2 + length (takeWhile (\<lambda>c. c \<noteq> CHR 0x0A) (drop 2 s)))
      else None)"

fun comment_close :: "string \<Rightarrow> nat option" where
  \<comment> \<open>\<open>[\s\S]*?\*/\<close>: the lazy repetition stops at the first \<open>*/\<close>\<close>
  "comment_close [] = None"
| "comment_close (c # cs) =
     (if take 2 (c # cs) = ''*/'' then Some 2 else map_option Suc (comment_close cs))"

definition match_comment_multi :: "string \<Rightarrow> nat option" where
  \<comment> \<open>\<open>/\*[\s\S]*?\*/\<close>\<close>
  "match_comment_multi s =
     (if take 2 s = ''/*'' then map_option (\<lambda>n. n + 2) (comment_close (drop 2 s)) else None)"

definition TOKEN_TYPES :: "(string \<times> (string \<Rightarrow> nat option)) list" where
  \<comment> \<open>the dictionary in insertion order, each pattern as its anchored matcher\<close>
  "TOKEN_TYPES =
     [(''KEYWORD'', match_keyword),
      (''IDENTIFIER'', match_identifier),
      (''PREPROCESSOR'', match_preprocessor),
      (''CONSTANT_FLOAT'', match_constant_float),
      (''CONSTANT_INT'', match_constant_int),
      (''OPERATOR'', match_operator),
      (''PUNCTUATOR'', match_punctuator),
      (''STRING_LITERAL'', match_string_literal),
      (''COMMENT_SINGLE'', match_comment_single),
      (''COMMENT_MULTI'', match_comment_multi)]"

fun re_sub_empty :: "(string \<Rightarrow> nat option) \<Rightarrow> string \<Rightarrow> string" where
  \<comment> \<open>\<open>re.sub(pattern, '', code)\<close>: every leftmost match is deleted, scanning left to right\<close>
  "re_sub_empty pattern [] = []"
| "re_sub_empty pattern (c # cs) =
     (case pattern (c # cs) of
        None \<Rightarrow> c # re_sub_empty pattern cs
      | Some 0 \<Rightarrow> c # re_sub_empty pattern cs
      | Some (Suc n) \<Rightarrow> re_sub_empty pattern (drop n cs))"

definition lstrip :: "string \<Rightarrow> string" where
  "lstrip s = dropWhile is_space s"

fun scan_rules :: "(string \<times> (string \<Rightarrow> nat option)) list \<Rightarrow> string \<Rightarrow> (string \<times> nat) option" where
  \<comment> \<open>the \<open>for\<close> loop over \<open>TOKEN_TYPES.items()\<close>: the first rule that matches, with the match end\<close>
  "scan_rules [] code = None"
| "scan_rules ((token_type, pattern) # rules) code =
     (if token_type \<in> set [''COMMENT_SINGLE'', ''COMMENT_MULTI''] then scan_rules rules code
      else (case pattern code of
              Some n \<Rightarrow> Some (token_type, n)
            | None \<Rightarrow> scan_rules rules code))"

definition scan_step :: "string \<Rightarrow> token option \<times> string" where
  \<comment> \<open>the body of the \<open>while\<close> loop after \<open>lstrip\<close>: one token, or one character skipped\<close>
  "scan_step code =
     (case scan_rules TOKEN_TYPES code of
        Some (token_type, n) \<Rightarrow> (Some (token_type, take n code), drop n code)
      | None \<Rightarrow> (None, drop 1 code))"


subsection \<open>Every rule consumes at least one character\<close>

lemma first_alt_Some:
  "first_alt ks ok s = Some n \<Longrightarrow> \<exists>k\<in>set ks. n = length k \<and> take n s = k \<and> ok n"
  by (induction ks) (auto split: if_splits)

lemma backtrack_Some:
  "backtrack lo n k = Some e \<Longrightarrow> \<exists>p. lo \<le> p \<and> p \<le> lo + n \<and> k p = Some e"
proof (induction n)
  case 0
  then show ?case by auto
next
  case (Suc n)
  show ?case
  proof (cases "k (lo + Suc n)")
    case None
    with Suc.prems have "backtrack lo n k = Some e" by simp
    from Suc.IH [OF this] obtain p where "lo \<le> p" "p \<le> lo + n" "k p = Some e" by blast
    then show ?thesis by (intro exI [of _ p]) simp
  next
    case (Some a)
    with Suc.prems have "k (lo + Suc n) = Some e" by simp
    then show ?thesis by (intro exI [of _ "lo + Suc n"]) simp
  qed
qed

lemma boundary_end_Some: "boundary_end s p = Some e \<Longrightarrow> e = p \<and> at_boundary s p"
  by (auto simp: boundary_end_def split: if_splits)

lemma first_alt_pos: "first_alt ks ok s = Some n \<Longrightarrow> \<forall>k\<in>set ks. k \<noteq> [] \<Longrightarrow> 0 < n"
  by (auto dest!: first_alt_Some)

lemma match_keyword_pos: "match_keyword s = Some n \<Longrightarrow> 0 < n"
  unfolding match_keyword_def
  by (auto split: if_splits elim!: first_alt_pos simp: keyword_alts_def)

lemma match_identifier_pos: "match_identifier s = Some n \<Longrightarrow> 0 < n"
  by (auto simp: match_identifier_def split: if_splits dest!: backtrack_Some boundary_end_Some)

lemma match_preprocessor_pos: "match_preprocessor s = Some n \<Longrightarrow> 0 < n"
  by (auto simp: match_preprocessor_def split: if_splits dest!: backtrack_Some)

lemma match_constant_float_pos: "match_constant_float s = Some n \<Longrightarrow> 0 < n"
  by (auto simp: match_constant_float_def Let_def split: if_splits
           dest!: backtrack_Some boundary_end_Some)

lemma match_constant_int_pos: "match_constant_int s = Some n \<Longrightarrow> 0 < n"
  by (auto simp: match_constant_int_def Let_def split: if_splits
           dest!: backtrack_Some boundary_end_Some)

lemma match_operator_pos: "match_operator s = Some n \<Longrightarrow> 0 < n"
  unfolding match_operator_def
  by (erule first_alt_pos) (simp add: operators_def)

lemma match_punctuator_pos: "match_punctuator s = Some n \<Longrightarrow> 0 < n"
  by (auto simp: match_punctuator_def split: if_splits)

lemma match_string_literal_pos: "match_string_literal s = Some n \<Longrightarrow> 0 < n"
  by (auto simp: match_string_literal_def split: list.splits if_splits)

lemma scan_rules_pos: "scan_rules TOKEN_TYPES code = Some (token_type, n) \<Longrightarrow> 0 < n"
  by (auto simp: TOKEN_TYPES_def split: option.splits
           dest: match_keyword_pos match_identifier_pos match_preprocessor_pos
                 match_constant_float_pos match_constant_int_pos match_operator_pos
                 match_punctuator_pos match_string_literal_pos)

lemma length_lstrip: "length (lstrip s) \<le> length s"
  by (simp add: lstrip_def length_dropWhile_le)

lemma drop_shorter:
  assumes "xs \<noteq> []" and "0 < n" and "length xs \<le> m"
  shows "length (drop n xs) < m"
proof -
  from assms(1) have "0 < length xs" by simp
  with assms(2,3) have "length xs - n < m" by arith
  then show ?thesis by (simp only: length_drop)
qed

subsection \<open>The scanning loop\<close>

function tokenize_loop :: "string \<Rightarrow> token list \<Rightarrow> token list" where
  "tokenize_loop code toks =
     (if code = [] then toks
      else let code1 = lstrip code
           in if code1 = [] then toks
              else (case scan_rules TOKEN_TYPES code1 of
                      Some (token_type, n) \<Rightarrow>
                        tokenize_loop (drop n code1) (toks @ [(token_type, take n code1)])
                    | None \<Rightarrow> tokenize_loop (drop 1 code1) toks))"
  by pat_completeness auto
termination
proof (relation "measure (\<lambda>(code, toks). length code)", goal_cases)
  case 1
  show ?case by simp
next
  case (3 code toks code1 token_type_n token_type n)
  then have "0 < n" by (auto dest: scan_rules_pos)
  with 3 have "length (drop n code1) < length code"
    by (intro drop_shorter) (simp_all add: length_lstrip)
  then show ?case by simp
next
  case (2 code toks code1)
  then have "length (drop 1 code1) < length code"
    by (intro drop_shorter) (simp_all add: length_lstrip)
  then show ?case by simp
qed

declare tokenize_loop.simps [simp del]

definition tokenize :: "string \<Rightarrow> token list" where
  \<comment> \<open>block comments are removed first, then line comments, then the loop runs\<close>
  "tokenize code =
     tokenize_loop (re_sub_empty match_comment_single (re_sub_empty match_comment_multi code)) []"


section \<open>The grammar walker (class Parser)\<close>

record parser =
  tokens :: "token list"
  token_index :: nat
  current_token :: "token option"
  errors :: "string list"

definition init :: "token list \<Rightarrow> parser" where
  \<comment> \<open>\<open>Parser.__init__\<close>\<close>
  "init toks =
     \<lparr>tokens = toks, token_index = 0,
      current_token = (if toks \<noteq> [] then Some (toks ! 0) else None),
      errors = []\<rparr>"

definition consume :: "parser \<Rightarrow> parser" where
  "consume s =
     (let i = token_index s + 1
      in s\<lparr>token_index := i,
            current_token := (if i < length (tokens s) then Some (tokens s ! i) else None)\<rparr>)"

function str_nat :: "nat \<Rightarrow> string" where
  \<comment> \<open>the decimal digits an f-string prints for a non-negative integer\<close>
  "str_nat n = (if n < 10 then [char_of (48 + n)] else str_nat (n div 10) @ [char_of (48 + n mod 10)])"
  by pat_completeness auto
termination
  by (relation "measure id") auto

declare str_nat.simps [simp del]

definition error :: "string \<Rightarrow> parser \<Rightarrow> parser" where
  "error message s =
     s\<lparr>errors := errors s @ [''Syntax Error at token index '' @ str_nat (token_index s) @ '': '' @ message]\<rparr>"

definition expected_str :: "string \<Rightarrow> string option \<Rightarrow> string" where
  \<comment> \<open>\<open>f"{expected_type} {f'({expected_value})' if expected_value else ''}"\<close>\<close>
  "expected_str expected_type expected_value =
     expected_type @ '' '' @
       (case expected_value of
          None \<Rightarrow> []
        | Some v \<Rightarrow> if v \<noteq> [] then ''('' @ v @ '')'' else [])"

definition match :: "string \<Rightarrow> string option \<Rightarrow> parser \<Rightarrow> bool \<times> parser" where
  "match expected_type expected_value s =
     (case current_token s of
        None \<Rightarrow>
          (False, error (''Expected '' @ expected_str expected_type expected_value
                           @ '', but found end of file.'') s)
      | Some (token_type, token_value) \<Rightarrow>
          (let type_match = (token_type = expected_type);
               value_match = (expected_value = None \<or> Some token_value = expected_value)
           in if type_match \<and> value_match then (True, consume s)
              else (False, error (''Expected '' @ expected_str expected_type expected_value
                                    @ '', but found <'' @ token_type @ '', '' @ token_value @ ''>.'') s)))"

definition expect :: "string \<Rightarrow> string \<Rightarrow> parser \<Rightarrow> parser" where
  \<comment> \<open>a call \<open>self.match(t, v)\<close> whose result is dropped\<close>
  "expect expected_type expected_value s = snd (match expected_type (Some expected_value) s)"

definition expect_type :: "string \<Rightarrow> parser \<Rightarrow> parser" where
  \<comment> \<open>a call \<open>self.match(t)\<close> whose result is dropped\<close>
  "expect_type expected_type s = snd (match expected_type None s)"

definition type_names :: "string list" where
  "type_names = [''int'', ''float'', ''double'', ''char'']"

definition type' :: "parser \<Rightarrow> parser" where
  \<comment> \<open>\<open>Parser.type\<close>\<close>
  "type' s =
     (case current_token s of
        Some (token_type, token_value) \<Rightarrow>
          if token_type = ''KEYWORD'' \<and> token_value \<in> set type_names then consume s
          else error ''Expected a Type (int, float, double, char).'' s
      | None \<Rightarrow> error ''Expected a Type (int, float, double, char).'' s)"

definition current_value_in :: "string list \<Rightarrow> parser \<Rightarrow> bool" where
  \<comment> \<open>the loop test \<open>self.current_token and self.current_token[1] in vs\<close>\<close>
  "current_value_in vs s =
     (case current_token s of None \<Rightarrow> False | Some (token_type, token_value) \<Rightarrow> token_value \<in> set vs)"

text \<open>
  The procedures that recurse or loop take a bound \<open>n\<close> on the depth of the calls still
  allowed and return \<open>None\<close> when it is used up; a walk that never ends is one that
  returns \<open>None\<close> for every bound. Each \<open>while\<close> loop is the function named after its
  procedure with the suffix \<open>_loop\<close>, so one more iteration counts as one more call.
\<close>

fun expression :: "nat \<Rightarrow> parser \<Rightarrow> parser option"
  and expression_loop :: "nat \<Rightarrow> parser \<Rightarrow> parser option"
  and term' :: "nat \<Rightarrow> parser \<Rightarrow> parser option"
  and term_loop :: "nat \<Rightarrow> parser \<Rightarrow> parser option"
  and factor :: "nat \<Rightarrow> parser \<Rightarrow> parser option"
where
  "expression 0 s = None"
| "expression (Suc n) s = term' n s \<bind> (\<lambda>s1. expression_loop n s1)"
| "expression_loop 0 s = None"
| "expression_loop (Suc n) s =
     (if current_value_in [''+'', ''-''] s
      then term' n (consume s) \<bind> (\<lambda>s1. expression_loop n s1)
      else Some s)"
| "term' 0 s = None"
| "term' (Suc n) s = factor n s \<bind> (\<lambda>s1. term_loop n s1)"
| "term_loop 0 s = None"
| "term_loop (Suc n) s =
     (if current_value_in [''*'', ''/''] s
      then factor n (consume s) \<bind> (\<lambda>s1. term_loop n s1)
      else Some s)"
| "factor 0 s = None"
| "factor (Suc n) s =
     (case current_token s of
        None \<Rightarrow> Some (error ''Expected Factor (Identifier, Constant, or '(' Expression ')').'' s)
      | Some (token_type, token_value) \<Rightarrow>
          if token_type = ''IDENTIFIER'' \<or> token_type = ''CONSTANT_INT''
             \<or> token_type = ''CONSTANT_FLOAT''
          then Some (consume s)
          else if token_value = ''(''
          then expression n (expect ''PUNCTUATOR'' ''('' s)
                 \<bind> (\<lambda>s1. Some (expect ''PUNCTUATOR'' '')'' s1))
          else Some (error ''Expected Factor (Identifier, Constant, or '(' Expression ')').'' s))"

fun identifier_list_loop :: "nat \<Rightarrow> parser \<Rightarrow> parser option" where
  "identifier_list_loop 0 s = None"
| "identifier_list_loop (Suc n) s =
     (if current_value_in ['',''] s
      then identifier_list_loop n (expect_type ''IDENTIFIER'' (expect ''PUNCTUATOR'' '','' s))
      else Some s)"

definition identifier_list :: "nat \<Rightarrow> parser \<Rightarrow> parser option" where
  "identifier_list n s = identifier_list_loop n (expect_type ''IDENTIFIER'' s)"

definition declaration_statement :: "nat \<Rightarrow> parser \<Rightarrow> parser option" where
  "declaration_statement n s = identifier_list n (type' s)"

definition assignment_statement :: "nat \<Rightarrow> parser \<Rightarrow> parser option" where
  "assignment_statement n s =
     expression n (expect ''OPERATOR'' ''='' (expect_type ''IDENTIFIER'' s))"

definition compare_ops :: "string list" where
  "compare_ops = [''=='', ''!='', ''<'', ''>'', ''<='', ''>='']"

definition compare_op :: "parser \<Rightarrow> parser" where
  "compare_op s =
     (case current_token s of
        Some (token_type, token_value) \<Rightarrow>
          if token_type = ''OPERATOR'' \<and> token_value \<in> set compare_ops then consume s
          else error ''Expected a Comparison Operator (==, !=, <, >, <=, >=).'' s
      | None \<Rightarrow> error ''Expected a Comparison Operator (==, !=, <, >, <=, >=).'' s)"

definition condition :: "nat \<Rightarrow> parser \<Rightarrow> parser option" where
  "condition n s = expression n s \<bind> (\<lambda>s1. expression n (compare_op s1))"

definition output_item :: "parser \<Rightarrow> parser" where
  "output_item s =
     (case current_token s of
        None \<Rightarrow> error ''Expected an Output Item (String, Identifier, or endl).'' s
      | Some (token_type, token_value) \<Rightarrow>
          if token_type = ''STRING_LITERAL'' then consume s
          else if token_type = ''IDENTIFIER''
          then (if token_value = ''endl'' then consume s else consume s)
          else error ''Expected a String Literal, Identifier, or 'endl'.'' s)"

fun output_list_loop :: "nat \<Rightarrow> parser \<Rightarrow> parser option" where
  "output_list_loop 0 s = None"
| "output_list_loop (Suc n) s =
     (if current_value_in [''<<''] s
      then output_list_loop n (output_item (expect ''OPERATOR'' ''<<'' s))
      else Some s)"

definition output_list :: "nat \<Rightarrow> parser \<Rightarrow> parser option" where
  "output_list n s = output_list_loop n (output_item (expect ''OPERATOR'' ''<<'' s))"

definition output_statement :: "nat \<Rightarrow> parser \<Rightarrow> parser option" where
  "output_statement n s = output_list n (expect_type ''IDENTIFIER'' s)"

definition return_statement :: "nat \<Rightarrow> parser \<Rightarrow> parser option" where
  "return_statement n s = expression n (expect ''KEYWORD'' ''return'' s)"

fun block :: "nat \<Rightarrow> parser \<Rightarrow> parser option"
  and statement_list :: "nat \<Rightarrow> parser \<Rightarrow> parser option"
  and statement :: "nat \<Rightarrow> parser \<Rightarrow> parser option"
  and if_statement :: "nat \<Rightarrow> parser \<Rightarrow> parser option"
where
  "block 0 s = None"
| "block (Suc n) s =
     statement_list n (expect ''PUNCTUATOR'' ''{'' s)
       \<bind> (\<lambda>s1. Some (expect ''PUNCTUATOR'' ''}'' s1))"
| "statement_list 0 s = None"
| "statement_list (Suc n) s =
     (if current_token s \<noteq> None \<and> \<not> current_value_in [''}''] s
      then statement n s
             \<bind> (\<lambda>s1. if errors s1 \<noteq> [] then Some s1 else statement_list n s1)
      else Some s)"
| "statement 0 s = None"
| "statement (Suc n) s =
     (case current_token s of
        None \<Rightarrow> Some s
      | Some (token_type, token_value) \<Rightarrow>
          if token_type = ''KEYWORD'' \<and> token_value \<in> set type_names
          then declaration_statement n s \<bind> (\<lambda>s1. Some (expect ''PUNCTUATOR'' '';'' s1))
          else if token_type = ''IDENTIFIER''
          then (if token_index s + 1 < length (tokens s)
                then (let next_token_value = snd (tokens s ! (token_index s + 1));
                          next_token_type = fst (tokens s ! (token_index s + 1))
                      in if next_token_value = ''=''
                         then assignment_statement n s
                                \<bind> (\<lambda>s1. Some (expect ''PUNCTUATOR'' '';'' s1))
                         else if next_token_type = ''OPERATOR'' \<and> next_token_value = ''<<''
                         then output_statement n s
                                \<bind> (\<lambda>s1. Some (expect ''PUNCTUATOR'' '';'' s1))
                         else Some (error ''Expected AssignmentStatement or OutputStatement.'' s))
                else Some (error ''Expected AssignmentStatement or OutputStatement, but found end of file.'' s))
          else if token_type = ''KEYWORD'' \<and> token_value = ''if''
          then if_statement n s
          else if token_type = ''KEYWORD'' \<and> token_value = ''return''
          then return_statement n s \<bind> (\<lambda>s1. Some (expect ''PUNCTUATOR'' '';'' s1))
          else Some (consume (error ''Expected a valid Statement (Declaration, Assignment, If, Output, or Return).'' s)))"
| "if_statement 0 s = None"
| "if_statement (Suc n) s =
     condition n (expect ''PUNCTUATOR'' ''('' (expect ''KEYWORD'' ''if'' s))
       \<bind> (\<lambda>s1. block n (expect ''PUNCTUATOR'' '')'' s1)
       \<bind> (\<lambda>s2. if current_value_in [''else''] s2
                  then block n (expect ''KEYWORD'' ''else'' s2)
                  else Some s2))"

definition function_definition :: "nat \<Rightarrow> parser \<Rightarrow> parser option" where
  "function_definition n s =
     block n (expect ''PUNCTUATOR'' '')'' (expect ''PUNCTUATOR'' ''(''
       (expect_type ''IDENTIFIER'' (type' s))))"

definition program :: "nat \<Rightarrow> parser \<Rightarrow> parser option" where
  "program n s = function_definition n s"

text \<open>
  \<open>parse\<close> runs the walk inside \<open>try ... except Exception: pass\<close>. The procedures raise
  nothing themselves: every index into \<open>tokens\<close> is guarded by a length test and every
  token is a pair. The handler can only be reached when the interpreter runs out of stack or
  of memory; the model has neither limit, so the handler has no branch here. The verdict is
  \<open>not self.errors\<close>.
\<close>

definition parse :: "nat \<Rightarrow> token list \<Rightarrow> (bool \<times> parser) option" where
  \<comment> \<open>a fresh \<open>Parser(tokens)\<close> and its \<open>parse()\<close>: the verdict and the final object\<close>
  "parse n toks =
     program n (init toks)
       \<bind> (\<lambda>s1. let s2 = (case current_token s1 of
                              None \<Rightarrow> s1
                            | Some (token_type, token_value) \<Rightarrow>
                                error (''Unexpected token <'' @ token_type @ '', '' @ token_value
                                         @ ''> after program end.'') s1)
                 in Some (errors s2 = [], s2))"

section \<open>Predicates on the state of the walk\<close>

text \<open>
  \<open>cursor_ok\<close> is the invariant of the cursor and the current token; \<open>later s s'\<close> says
  that \<open>s'\<close> is a state the walk can be in after \<open>s\<close>: the same tokens, a cursor that has
  not moved back, and an error log that has only been appended to.
\<close>

definition cursor_ok :: "parser \<Rightarrow> bool" where
  "cursor_ok s =
     (token_index s \<le> length (tokens s) \<and>
      current_token s =
        (if token_index s < length (tokens s) then Some (tokens s ! token_index s) else None))"

definition later :: "parser \<Rightarrow> parser \<Rightarrow> bool" where
  "later s s' =
     (tokens s' = tokens s \<and> token_index s \<le> token_index s' \<and> cursor_ok s' \<and>
      (\<exists>es. errors s' = errors s @ es))"

definition procedures :: "(nat \<Rightarrow> parser \<Rightarrow> parser option) list" where
  \<comment> \<open>every procedure of the walk that takes a depth bound\<close>
  "procedures =
     [expression, expression_loop, term', term_loop, factor,
      identifier_list_loop, identifier_list, declaration_statement, assignment_statement,
      condition, output_list_loop, output_list, output_statement, return_statement,
      block, statement_list, statement, if_statement, function_definition, program]"





section \<open>Invariants of the walk\<close>

lemma later_refl: "cursor_ok s \<Longrightarrow> later s s"
  by (simp add: later_def)

lemma later_trans: "later s s1 \<Longrightarrow> later s1 s2 \<Longrightarrow> later s s2"
  by (auto simp: later_def)

lemma later_ok: "later s s' \<Longrightarrow> cursor_ok s'"
  by (simp add: later_def)

lemma cursor_ok_init: "cursor_ok (init toks)"
  by (cases toks) (simp_all add: cursor_ok_def init_def)

lemma later_error: "cursor_ok s \<Longrightarrow> later s (error m s)"
  by (simp add: later_def cursor_ok_def error_def)

lemma later_consume: "cursor_ok s \<Longrightarrow> current_token s \<noteq> None \<Longrightarrow> later s (consume s)"
  by (auto simp: later_def cursor_ok_def consume_def Let_def split: if_splits)

lemma later_match: "cursor_ok s \<Longrightarrow> later s (snd (match t v s))"
  by (auto simp: match_def Let_def later_error later_consume split: option.splits)

lemma later_expect: "cursor_ok s \<Longrightarrow> later s (expect t v s)"
  by (simp add: expect_def later_match)

lemma later_expect_type: "cursor_ok s \<Longrightarrow> later s (expect_type t s)"
  by (simp add: expect_type_def later_match)

lemma later_type: "cursor_ok s \<Longrightarrow> later s (type' s)"
  by (auto simp: type'_def later_error later_consume split: option.splits)

lemma later_compare_op: "cursor_ok s \<Longrightarrow> later s (compare_op s)"
  by (auto simp: compare_op_def later_error later_consume split: option.splits)

lemma later_output_item: "cursor_ok s \<Longrightarrow> later s (output_item s)"
  by (auto simp: output_item_def later_error later_consume split: option.splits)

lemma current_value_in_Some: "current_value_in vs s \<Longrightarrow> current_token s \<noteq> None"
  by (auto simp: current_value_in_def split: option.splits)

lemma later_expression:
  "cursor_ok s \<Longrightarrow> expression n s = Some s' \<Longrightarrow> later s s'"
  "cursor_ok s \<Longrightarrow> expression_loop n s = Some s' \<Longrightarrow> later s s'"
  "cursor_ok s \<Longrightarrow> term' n s = Some s' \<Longrightarrow> later s s'"
  "cursor_ok s \<Longrightarrow> term_loop n s = Some s' \<Longrightarrow> later s s'"
  "cursor_ok s \<Longrightarrow> factor n s = Some s' \<Longrightarrow> later s s'"
proof (induction n s and n s and n s and n s and n s arbitrary: s' and s' and s' and s' and s'
       rule: expression_expression_loop_term'_term_loop_factor.induct)
  case (2 n s)
  from 2(4) obtain s1 where s1: "term' n s = Some s1" "expression_loop n s1 = Some s'"
    by (auto simp: bind_eq_Some_conv)
  from 2(1) [OF 2(3) s1(1)] have l1: "later s s1" .
  from 2(2) [OF s1(1) later_ok [OF l1] s1(2)] have "later s1 s'" .
  with l1 show ?case by (blast intro: later_trans)
next
  case (4 n s)
  show ?case
  proof (cases "current_value_in [''+'', ''-''] s")
    case True
    then have c: "later s (consume s)"
      using 4(3) by (simp add: later_consume current_value_in_Some)
    from True 4(4) obtain s1 where s1: "term' n (consume s) = Some s1" "expression_loop n s1 = Some s'"
      by (auto simp: bind_eq_Some_conv)
    from 4(1) [OF True later_ok [OF c] s1(1)] have l1: "later (consume s) s1" .
    from 4(2) [OF True s1(1) later_ok [OF l1] s1(2)] have "later s1 s'" .
    with c l1 show ?thesis by (blast intro: later_trans)
  next
    case False
    with 4 show ?thesis by (simp add: later_refl)
  qed
next
  case (6 n s)
  from 6(4) obtain s1 where s1: "factor n s = Some s1" "term_loop n s1 = Some s'"
    by (auto simp: bind_eq_Some_conv)
  from 6(1) [OF 6(3) s1(1)] have l1: "later s s1" .
  from 6(2) [OF s1(1) later_ok [OF l1] s1(2)] have "later s1 s'" .
  with l1 show ?case by (blast intro: later_trans)
next
  case (8 n s)
  show ?case
  proof (cases "current_value_in [''*'', ''/''] s")
    case True
    then have c: "later s (consume s)"
      using 8(3) by (simp add: later_consume current_value_in_Some)
    from True 8(4) obtain s1 where s1: "factor n (consume s) = Some s1" "term_loop n s1 = Some s'"
      by (auto simp: bind_eq_Some_conv)
    from 8(1) [OF True later_ok [OF c] s1(1)] have l1: "later (consume s) s1" .
    from 8(2) [OF True s1(1) later_ok [OF l1] s1(2)] have "later s1 s'" .
    with c l1 show ?thesis by (blast intro: later_trans)
  next
    case False
    with 8 show ?thesis by (simp add: later_refl)
  qed
next
  case (10 n s)
  show ?case
  proof (cases "current_token s")
    case None
    with 10 show ?thesis by (auto simp: later_error)
  next
    case (Some tok)
    obtain ty v where tok: "tok = (ty, v)" by (cases tok)
    show ?thesis
    proof (cases "ty = ''IDENTIFIER'' \<or> ty = ''CONSTANT_INT'' \<or> ty = ''CONSTANT_FLOAT''")
      case True
      with 10 Some tok show ?thesis by (auto simp: later_consume)
    next
      case nid: False
      show ?thesis
      proof (cases "v = ''(''")
        case True
        have e: "later s (expect ''PUNCTUATOR'' ''('' s)" using 10(2) by (rule later_expect)
        from 10(3) Some tok nid True obtain s1 where
          s1: "expression n (expect ''PUNCTUATOR'' ''('' s) = Some s1"
              "s' = expect ''PUNCTUATOR'' '')'' s1"
          by (auto simp: bind_eq_Some_conv)
        have "later (expect ''PUNCTUATOR'' ''('' s) s1"
          using 10(1) [OF Some tok [symmetric] _ True later_ok [OF e] s1(1)] nid by simp
        moreover have "later s1 s'" using s1(2) later_expect later_ok calculation by blast
        ultimately show ?thesis using e by (blast intro: later_trans)
      next
        case False
        with 10 Some tok nid show ?thesis by (auto simp: later_error)
      qed
    qed
  qed
qed simp_all


lemma later_then: "later s a \<Longrightarrow> (cursor_ok a \<Longrightarrow> later a b) \<Longrightarrow> later s b"
  by (blast intro: later_trans dest: later_ok)

lemma later_identifier_list_loop:
  "cursor_ok s \<Longrightarrow> identifier_list_loop n s = Some s' \<Longrightarrow> later s s'"
proof (induction n arbitrary: s)
  case 0
  then show ?case by simp
next
  case (Suc n)
  show ?case
  proof (cases "current_value_in ['',''] s")
    case True
    let ?s1 = "expect_type ''IDENTIFIER'' (expect ''PUNCTUATOR'' '','' s)"
    have l: "later s ?s1"
      using Suc.prems(1) by (blast intro: later_then later_expect later_expect_type)
    from True Suc.prems(2) have "identifier_list_loop n ?s1 = Some s'" by simp
    from Suc.IH [OF later_ok [OF l] this] l show ?thesis by (blast intro: later_trans)
  next
    case False
    with Suc.prems show ?thesis by (simp add: later_refl)
  qed
qed

lemma later_identifier_list:
  "cursor_ok s \<Longrightarrow> identifier_list n s = Some s' \<Longrightarrow> later s s'"
  unfolding identifier_list_def
  by (blast intro: later_then later_expect_type later_identifier_list_loop)

lemma later_declaration_statement:
  "cursor_ok s \<Longrightarrow> declaration_statement n s = Some s' \<Longrightarrow> later s s'"
  unfolding declaration_statement_def
  by (blast intro: later_then later_type later_identifier_list)

lemma later_assignment_statement:
  "cursor_ok s \<Longrightarrow> assignment_statement n s = Some s' \<Longrightarrow> later s s'"
  unfolding assignment_statement_def
  by (blast intro: later_then later_expect later_expect_type later_expression(1))

lemma later_condition:
  "cursor_ok s \<Longrightarrow> condition n s = Some s' \<Longrightarrow> later s s'"
  unfolding condition_def bind_eq_Some_conv
  by (blast intro: later_then later_compare_op later_expression(1))

lemma later_output_list_loop:
  "cursor_ok s \<Longrightarrow> output_list_loop n s = Some s' \<Longrightarrow> later s s'"
proof (induction n arbitrary: s)
  case 0
  then show ?case by simp
next
  case (Suc n)
  show ?case
  proof (cases "current_value_in [''<<''] s")
    case True
    let ?s1 = "output_item (expect ''OPERATOR'' ''<<'' s)"
    have l: "later s ?s1"
      using Suc.prems(1) by (blast intro: later_then later_expect later_output_item)
    from True Suc.prems(2) have "output_list_loop n ?s1 = Some s'" by simp
    from Suc.IH [OF later_ok [OF l] this] l show ?thesis by (blast intro: later_trans)
  next
    case False
    with Suc.prems show ?thesis by (simp add: later_refl)
  qed
qed

lemma later_output_list:
  "cursor_ok s \<Longrightarrow> output_list n s = Some s' \<Longrightarrow> later s s'"
  unfolding output_list_def
  by (blast intro: later_then later_expect later_output_item later_output_list_loop)

lemma later_output_statement:
  "cursor_ok s \<Longrightarrow> output_statement n s = Some s' \<Longrightarrow> later s s'"
  unfolding output_statement_def
  by (blast intro: later_then later_expect_type later_output_list)

lemma later_return_statement:
  "cursor_ok s \<Longrightarrow> return_statement n s = Some s' \<Longrightarrow> later s s'"
  unfolding return_statement_def
  by (blast intro: later_then later_expect later_expression(1))



lemma statement_eof: "current_token s = None \<Longrightarrow> statement (Suc n) s = Some s"
  by simp

lemma statement_decl:
  "current_token s = Some (''KEYWORD'', v) \<Longrightarrow> v \<in> set type_names \<Longrightarrow>
   statement (Suc n) s =
     declaration_statement n s \<bind> (\<lambda>s1. Some (expect ''PUNCTUATOR'' '';'' s1))"
  by simp

lemma statement_assign:
  "current_token s = Some (''IDENTIFIER'', v) \<Longrightarrow> token_index s + 1 < length (tokens s) \<Longrightarrow>
   snd (tokens s ! (token_index s + 1)) = ''='' \<Longrightarrow>
   statement (Suc n) s =
     assignment_statement n s \<bind> (\<lambda>s1. Some (expect ''PUNCTUATOR'' '';'' s1))"
  by simp

lemma statement_output:
  "current_token s = Some (''IDENTIFIER'', v) \<Longrightarrow> token_index s + 1 < length (tokens s) \<Longrightarrow>
   tokens s ! (token_index s + 1) = (''OPERATOR'', ''<<'') \<Longrightarrow>
   statement (Suc n) s =
     output_statement n s \<bind> (\<lambda>s1. Some (expect ''PUNCTUATOR'' '';'' s1))"
  by simp

lemma statement_bad_next:
  "current_token s = Some (''IDENTIFIER'', v) \<Longrightarrow> token_index s + 1 < length (tokens s) \<Longrightarrow>
   snd (tokens s ! (token_index s + 1)) \<noteq> ''='' \<Longrightarrow>
   tokens s ! (token_index s + 1) \<noteq> (''OPERATOR'', ''<<'') \<Longrightarrow>
   statement (Suc n) s = Some (error ''Expected AssignmentStatement or OutputStatement.'' s)"
  by (cases "tokens s ! (token_index s + 1)") (auto simp: Let_def)

lemma statement_last:
  "current_token s = Some (''IDENTIFIER'', v) \<Longrightarrow> \<not> token_index s + 1 < length (tokens s) \<Longrightarrow>
   statement (Suc n) s =
     Some (error ''Expected AssignmentStatement or OutputStatement, but found end of file.'' s)"
  by simp

lemma statement_if:
  "current_token s = Some (''KEYWORD'', ''if'') \<Longrightarrow> statement (Suc n) s = if_statement n s"
  by (simp add: type_names_def)

lemma statement_return:
  "current_token s = Some (''KEYWORD'', ''return'') \<Longrightarrow>
   statement (Suc n) s =
     return_statement n s \<bind> (\<lambda>s1. Some (expect ''PUNCTUATOR'' '';'' s1))"
  by (simp add: type_names_def)

lemma statement_other:
  "current_token s = Some (ty, v) \<Longrightarrow> \<not> (ty = ''KEYWORD'' \<and> v \<in> set type_names) \<Longrightarrow>
   ty \<noteq> ''IDENTIFIER'' \<Longrightarrow> \<not> (ty = ''KEYWORD'' \<and> v = ''if'') \<Longrightarrow>
   \<not> (ty = ''KEYWORD'' \<and> v = ''return'') \<Longrightarrow>
   statement (Suc n) s =
     Some (consume (error ''Expected a valid Statement (Declaration, Assignment, If, Output, or Return).'' s))"
  by auto


lemma statement_branches [case_names eof decl assign outp bad_next last_tok ifs ret other]:
  obtains "current_token s = None"
  | v where "current_token s = Some (''KEYWORD'', v)" "v \<in> set type_names"
  | v where "current_token s = Some (''IDENTIFIER'', v)"
      "token_index s + 1 < length (tokens s)"
      "snd (tokens s ! (token_index s + 1)) = ''=''"
  | v where "current_token s = Some (''IDENTIFIER'', v)"
      "token_index s + 1 < length (tokens s)"
      "tokens s ! (token_index s + 1) = (''OPERATOR'', ''<<'')"
  | v where "current_token s = Some (''IDENTIFIER'', v)"
      "token_index s + 1 < length (tokens s)"
      "snd (tokens s ! (token_index s + 1)) \<noteq> ''=''"
      "tokens s ! (token_index s + 1) \<noteq> (''OPERATOR'', ''<<'')"
  | v where "current_token s = Some (''IDENTIFIER'', v)"
      "\<not> token_index s + 1 < length (tokens s)"
  | "current_token s = Some (''KEYWORD'', ''if'')"
  | "current_token s = Some (''KEYWORD'', ''return'')"
  | ty v where "current_token s = Some (ty, v)"
      "\<not> (ty = ''KEYWORD'' \<and> v \<in> set type_names)" "ty \<noteq> ''IDENTIFIER''"
      "\<not> (ty = ''KEYWORD'' \<and> v = ''if'')" "\<not> (ty = ''KEYWORD'' \<and> v = ''return'')"
proof (cases "current_token s")
  case None
  then show ?thesis by (rule that(1))
next
  case (Some tok)
  obtain ty v where tok: "tok = (ty, v)" by (cases tok)
  note cur = Some [unfolded tok]
  show ?thesis
  proof (cases "ty = ''KEYWORD'' \<and> v \<in> set type_names")
    case True
    with cur have "current_token s = Some (''KEYWORD'', v)" by simp
    then show ?thesis using True by (intro that(2) [of v]) simp_all
  next
    case a: False
    show ?thesis
    proof (cases "ty = ''IDENTIFIER''")
      case True
      with cur have c: "current_token s = Some (''IDENTIFIER'', v)" by simp
      show ?thesis
      proof (cases "token_index s + 1 < length (tokens s)")
        case False
        with c show ?thesis by (rule that(6))
      next
        case lt: True
        show ?thesis
        proof (cases "snd (tokens s ! (token_index s + 1)) = ''=''")
          case True
          with c lt show ?thesis by (rule that(3))
        next
          case ne: False
          show ?thesis
          proof (cases "tokens s ! (token_index s + 1) = (''OPERATOR'', ''<<'')")
            case True
            with c lt show ?thesis by (rule that(4))
          next
            case False
            with c lt ne show ?thesis by (rule that(5))
          qed
        qed
      qed
    next
      case b: False
      show ?thesis
      proof (cases "ty = ''KEYWORD'' \<and> v = ''if''")
        case True
        with cur have "current_token s = Some (''KEYWORD'', ''if'')" by simp
        then show ?thesis by (rule that(7))
      next
        case c: False
        show ?thesis
        proof (cases "ty = ''KEYWORD'' \<and> v = ''return''")
          case True
          with cur have "current_token s = Some (''KEYWORD'', ''return'')" by simp
          then show ?thesis by (rule that(8))
        next
          case False
          with cur a b c show ?thesis by (rule that(9))
        qed
      qed
    qed
  qed
qed

lemma later_expect_after: "later s s1 \<Longrightarrow> later s (expect t v s1)"
  by (blast intro: later_then later_expect)

lemma later_statement_all:
  "\<forall>s s'. cursor_ok s \<longrightarrow>
     (block n s = Some s' \<longrightarrow> later s s') \<and>
     (statement_list n s = Some s' \<longrightarrow> later s s') \<and>
     (statement n s = Some s' \<longrightarrow> later s s') \<and>
     (if_statement n s = Some s' \<longrightarrow> later s s')"
proof (induction n)
  case 0
  show ?case by simp
next
  case (Suc n)
  have blk: "later s s'" if "cursor_ok s" "block n s = Some s'" for s s'
    using Suc that by blast
  have sl: "later s s'" if "cursor_ok s" "statement_list n s = Some s'" for s s'
    using Suc that by blast
  have st: "later s s'" if "cursor_ok s" "statement n s = Some s'" for s s'
    using Suc that by blast
  have ifst: "later s s'" if "cursor_ok s" "if_statement n s = Some s'" for s s'
    using Suc that by blast
  have 1: "later s s'" if ok: "cursor_ok s" and r: "block (Suc n) s = Some s'" for s s'
  proof -
    from r obtain s1 where s1: "statement_list n (expect ''PUNCTUATOR'' ''{'' s) = Some s1"
      and s': "s' = expect ''PUNCTUATOR'' ''}'' s1"
      by (auto simp: bind_eq_Some_conv)
    have "later s s1" using ok s1 by (blast intro: later_then later_expect sl)
    then show ?thesis unfolding s' by (rule later_expect_after)
  qed
  have 2: "later s s'" if ok: "cursor_ok s" and r: "statement_list (Suc n) s = Some s'" for s s'
  proof (cases "current_token s \<noteq> None \<and> \<not> current_value_in [''}''] s")
    case True
    with r obtain s1 where s1: "statement n s = Some s1"
      and s': "(errors s1 \<noteq> [] \<and> s' = s1) \<or> (errors s1 = [] \<and> statement_list n s1 = Some s')"
      by (auto simp: bind_eq_Some_conv split: if_splits)
    have "later s s1" using ok s1 by (rule st)
    with s' show ?thesis by (blast intro: later_then sl)
  next
    case False
    with r have "s' = s" by auto
    with ok show ?thesis by (simp add: later_refl)
  qed
  have 3: "later s s'" if ok: "cursor_ok s" and r: "statement (Suc n) s = Some s'" for s s'
  proof (cases s rule: statement_branches)
    case eof
    from r [unfolded statement_eof [OF eof]] ok show ?thesis by (simp add: later_refl)
  next
    case (decl v)
    from r [unfolded statement_decl [OF decl]]
    obtain s1 where "declaration_statement n s = Some s1" "s' = expect ''PUNCTUATOR'' '';'' s1"
      by (auto simp: bind_eq_Some_conv)
    with ok show ?thesis by (blast intro: later_expect_after later_declaration_statement)
  next
    case (assign v)
    from r [unfolded statement_assign [OF assign]]
    obtain s1 where "assignment_statement n s = Some s1" "s' = expect ''PUNCTUATOR'' '';'' s1"
      by (auto simp: bind_eq_Some_conv)
    with ok show ?thesis by (blast intro: later_expect_after later_assignment_statement)
  next
    case (outp v)
    from r [unfolded statement_output [OF outp]]
    obtain s1 where "output_statement n s = Some s1" "s' = expect ''PUNCTUATOR'' '';'' s1"
      by (auto simp: bind_eq_Some_conv)
    with ok show ?thesis by (blast intro: later_expect_after later_output_statement)
  next
    case (bad_next v)
    from r [unfolded statement_bad_next [OF bad_next]] ok show ?thesis
      by (auto simp: later_error)
  next
    case (last_tok v)
    from r [unfolded statement_last [OF last_tok]] ok show ?thesis
      by (auto simp: later_error)
  next
    case ifs
    from r [unfolded statement_if [OF ifs]] ok show ?thesis by (blast intro: ifst)
  next
    case ret
    from r [unfolded statement_return [OF ret]]
    obtain s1 where "return_statement n s = Some s1" "s' = expect ''PUNCTUATOR'' '';'' s1"
      by (auto simp: bind_eq_Some_conv)
    with ok show ?thesis by (blast intro: later_expect_after later_return_statement)
  next
    case (other ty v)
    from r [unfolded statement_other [OF other]]
    have s': "s' = consume (error ''Expected a valid Statement (Declaration, Assignment, If, Output, or Return).'' s)"
      by simp
    have "current_token (error m s) \<noteq> None" for m using other(1) by (simp add: error_def)
    then show ?thesis unfolding s' using ok
      by (blast intro: later_then later_error later_consume)
  qed
  have 4: "later s s'" if ok: "cursor_ok s" and r: "if_statement (Suc n) s = Some s'" for s s'
  proof -
    let ?a = "expect ''PUNCTUATOR'' ''('' (expect ''KEYWORD'' ''if'' s)"
    from r obtain s1 s2 where s1: "condition n ?a = Some s1"
      and s2: "block n (expect ''PUNCTUATOR'' '')'' s1) = Some s2"
      and s': "(if current_value_in [''else''] s2 then block n (expect ''KEYWORD'' ''else'' s2)
                else Some s2) = Some s'"
      by (auto simp: bind_eq_Some_conv)
    have "later s ?a" using ok by (blast intro: later_then later_expect)
    then have "later s s1" using s1 by (blast intro: later_then later_condition)
    then have l2: "later s s2" using s2 by (blast intro: later_then later_expect blk)
    show ?thesis
    proof (cases "current_value_in [''else''] s2")
      case True
      with s' have "block n (expect ''KEYWORD'' ''else'' s2) = Some s'" by simp
      with l2 show ?thesis by (blast intro: later_then later_expect blk)
    next
      case False
      with s' l2 show ?thesis by simp
    qed
  qed
  from 1 2 3 4 show ?case by blast
qed

lemmas later_block = later_statement_all [rule_format, THEN conjunct1, rule_format]
lemmas later_statement_list = later_statement_all [rule_format, THEN conjunct2, THEN conjunct1, rule_format]
lemmas later_statement = later_statement_all [rule_format, THEN conjunct2, THEN conjunct2, THEN conjunct1, rule_format]
lemmas later_if_statement = later_statement_all [rule_format, THEN conjunct2, THEN conjunct2, THEN conjunct2, rule_format]

lemma later_function_definition:
  "cursor_ok s \<Longrightarrow> function_definition n s = Some s' \<Longrightarrow> later s s'"
proof -
  assume ok: "cursor_ok s" and r: "function_definition n s = Some s'"
  let ?a = "type' s"
  let ?b = "expect_type ''IDENTIFIER'' ?a"
  let ?c = "expect ''PUNCTUATOR'' ''('' ?b"
  let ?d = "expect ''PUNCTUATOR'' '')'' ?c"
  have a: "later s ?a" using ok by (rule later_type)
  have b: "later ?a ?b" using later_ok [OF a] by (rule later_expect_type)
  have c: "later ?b ?c" using later_ok [OF b] by (rule later_expect)
  have d: "later ?c ?d" using later_ok [OF c] by (rule later_expect)
  from r have "block n ?d = Some s'" by (simp add: function_definition_def)
  with later_ok [OF d] have e: "later ?d s'" by (rule later_block)
  from later_trans [OF a later_trans [OF b later_trans [OF c later_trans [OF d e]]]]
  show ?thesis .
qed

lemma later_program: "cursor_ok s \<Longrightarrow> program n s = Some s' \<Longrightarrow> later s s'"
  unfolding program_def by (rule later_function_definition)




lemma index_consume: "token_index (consume s) = token_index s + 1"
  by (simp add: consume_def Let_def)





lemma later_tokens: "later s s' \<Longrightarrow> tokens s' = tokens s"
  by (simp add: later_def)


lemma statement_list_exit:
  "statement_list m s = Some s' \<Longrightarrow>
   errors s' \<noteq> [] \<or> current_token s' = None \<or> current_value_in [''}''] s'"
proof (induction m arbitrary: s)
  case 0
  then show ?case by simp
next
  case (Suc m)
  show ?case
  proof (cases "current_token s \<noteq> None \<and> \<not> current_value_in [''}''] s")
    case True
    with Suc.prems obtain s1 where "statement m s = Some s1"
      and "(errors s1 \<noteq> [] \<and> s' = s1) \<or> (errors s1 = [] \<and> statement_list m s1 = Some s')"
      by (auto simp: bind_eq_Some_conv split: if_splits)
    with Suc.IH show ?thesis by auto
  next
    case False
    with Suc.prems have "s' = s" by auto
    with False show ?thesis by blast
  qed
qed

lemma later_procedures:
  assumes "p \<in> set procedures" and "cursor_ok s" and "p n s = Some s'"
  shows "later s s'"
  using assms unfolding procedures_def
  by (auto intro: later_expression later_identifier_list_loop later_identifier_list
        later_declaration_statement later_assignment_statement later_condition
        later_output_list_loop later_output_list later_output_statement later_return_statement
        later_block later_statement_list later_statement later_if_statement
        later_function_definition later_program)

lemma scan_step_Some:
  assumes "scan_step code = (Some (ty, v), rest)"
  shows "\<exists>n. scan_rules TOKEN_TYPES code = Some (ty, n) \<and> 0 < n \<and> v = take n code \<and> rest = drop n code"
  using assms by (auto simp: scan_step_def split: option.splits dest: scan_rules_pos)

lemma scan_step_None:
  assumes "scan_step code = (None, rest)"
  shows "scan_rules TOKEN_TYPES code = None \<and> rest = drop 1 code"
  using assms by (auto simp: scan_step_def split: option.splits)

lemma tokenize_loop_step:
  assumes "code \<noteq> []" and "lstrip code \<noteq> []"
  shows "tokenize_loop code toks =
           (case scan_step (lstrip code) of
              (Some tok, rest) \<Rightarrow> tokenize_loop rest (toks @ [tok])
            | (None, rest) \<Rightarrow> tokenize_loop rest toks)"
  using assms
  by (subst tokenize_loop.simps) (simp add: scan_step_def Let_def split: option.splits)

lemma tokenize_loop_nonempty:
  "\<forall>tok \<in> set toks. snd tok \<noteq> [] \<Longrightarrow> \<forall>tok \<in> set (tokenize_loop code toks). snd tok \<noteq> []"
proof (induction code toks rule: tokenize_loop.induct)
  case (1 code toks)
  note prems = "1.prems" and IH = "1.IH"
  show ?case
  proof (cases "code = [] \<or> lstrip code = []")
    case True
    then have "tokenize_loop code toks = toks"
      by (subst tokenize_loop.simps) (auto simp: Let_def)
    with prems show ?thesis by simp
  next
    case False
    then have ne: "code \<noteq> []" "lstrip code \<noteq> []" by simp_all
    show ?thesis
    proof (cases "scan_rules TOKEN_TYPES (lstrip code)")
      case None
      then have "tokenize_loop code toks = tokenize_loop (drop 1 (lstrip code)) toks"
        using ne by (subst tokenize_loop.simps) (simp add: Let_def)
      with IH(1) [OF ne(1) refl ne(2) None prems] show ?thesis by simp
    next
      case (Some r)
      obtain ty n where r: "r = (ty, n)" by (cases r)
      from Some r have pos: "0 < n" by (auto dest: scan_rules_pos)
      have eq: "tokenize_loop code toks =
                  tokenize_loop (drop n (lstrip code)) (toks @ [(ty, take n (lstrip code))])"
        using ne Some r by (subst tokenize_loop.simps) (simp add: Let_def)
      have "\<forall>tok \<in> set (toks @ [(ty, take n (lstrip code))]). snd tok \<noteq> []"
        using prems pos ne(2) by auto
      from IH(2) [OF ne(1) refl ne(2) Some r [symmetric] this] eq show ?thesis by simp
    qed
  qed
qed

lemma word_not_space: "is_word c \<Longrightarrow> \<not> is_space c"
  by (auto simp: is_word_def is_space_def Let_def)

lemma match_keyword_lstrip: "match_keyword code = Some n \<Longrightarrow> code \<noteq> [] \<and> lstrip code = code"
  by (cases code) (auto simp: match_keyword_def at_boundary_def lstrip_def word_not_space split: if_splits)

subsection \<open>Termination on token sequences shaped as the scanner shapes them\<close>





























subsection \<open>A token sequence on which the walk never returns\<close>









subsection \<open>A larger depth bound changes no result\<close>

lemma factor_leaf:
  assumes "\<not> (\<exists>ty. current_token s = Some (ty, ''('') \<and> ty \<noteq> ''IDENTIFIER'' \<and>
                  ty \<noteq> ''CONSTANT_INT'' \<and> ty \<noteq> ''CONSTANT_FLOAT'')"
  shows "factor (Suc n) s = factor (Suc m) s"
proof (cases "current_token s")
  case None
  then show ?thesis by simp
next
  case (Some tok)
  obtain ty v where tok: "tok = (ty, v)" by (cases tok)
  show ?thesis
  proof (cases "ty = ''IDENTIFIER'' \<or> ty = ''CONSTANT_INT'' \<or> ty = ''CONSTANT_FLOAT''")
    case True
    with Some tok show ?thesis by auto
  next
    case False
    with assms Some tok have "v \<noteq> ''(''" by auto
    with False Some tok show ?thesis by simp
  qed
qed

lemma expression_mono_all:
  "\<forall>s s'. (expression n s = Some s' \<longrightarrow> expression (Suc n) s = Some s') \<and>
           (expression_loop n s = Some s' \<longrightarrow> expression_loop (Suc n) s = Some s') \<and>
           (term' n s = Some s' \<longrightarrow> term' (Suc n) s = Some s') \<and>
           (term_loop n s = Some s' \<longrightarrow> term_loop (Suc n) s = Some s') \<and>
           (factor n s = Some s' \<longrightarrow> factor (Suc n) s = Some s')"
proof (induction n)
  case 0
  show ?case by simp
next
  case (Suc n)
  have E: "expression (Suc n) s = Some s'" if "expression n s = Some s'" for s s'
    using Suc that by blast
  have EL: "expression_loop (Suc n) s = Some s'" if "expression_loop n s = Some s'" for s s'
    using Suc that by blast
  have T: "term' (Suc n) s = Some s'" if "term' n s = Some s'" for s s'
    using Suc that by blast
  have TL: "term_loop (Suc n) s = Some s'" if "term_loop n s = Some s'" for s s'
    using Suc that by blast
  have F: "factor (Suc n) s = Some s'" if "factor n s = Some s'" for s s'
    using Suc that by blast
  have 1: "expression (Suc (Suc n)) s = Some s'" if r: "expression (Suc n) s = Some s'" for s s'
  proof -
    from r obtain s1 where a: "term' n s = Some s1" and b: "expression_loop n s1 = Some s'"
      by (auto simp: bind_eq_Some_conv)
    from T [OF a] EL [OF b] have "term' (Suc n) s = Some s1" "expression_loop (Suc n) s1 = Some s'" .
    then show ?thesis by (simp del: term'.simps expression_loop.simps)
  qed
  have 2: "expression_loop (Suc (Suc n)) s = Some s'"
    if r: "expression_loop (Suc n) s = Some s'" for s s'
  proof (cases "current_value_in [''+'', ''-''] s")
    case True
    with r obtain s1 where a: "term' n (consume s) = Some s1" and b: "expression_loop n s1 = Some s'"
      by (auto simp: bind_eq_Some_conv)
    from T [OF a] EL [OF b] have "term' (Suc n) (consume s) = Some s1" "expression_loop (Suc n) s1 = Some s'" .
    with True show ?thesis
      by (subst expression_loop.simps) (simp del: term'.simps expression_loop.simps)
  next
    case False
    with r show ?thesis by simp
  qed
  have 3: "term' (Suc (Suc n)) s = Some s'" if r: "term' (Suc n) s = Some s'" for s s'
  proof -
    from r obtain s1 where a: "factor n s = Some s1" and b: "term_loop n s1 = Some s'"
      by (auto simp: bind_eq_Some_conv)
    from F [OF a] TL [OF b] have "factor (Suc n) s = Some s1" "term_loop (Suc n) s1 = Some s'" .
    then show ?thesis by (simp del: factor.simps term_loop.simps)
  qed
  have 4: "term_loop (Suc (Suc n)) s = Some s'" if r: "term_loop (Suc n) s = Some s'" for s s'
  proof (cases "current_value_in [''*'', ''/''] s")
    case True
    with r obtain s1 where a: "factor n (consume s) = Some s1" and b: "term_loop n s1 = Some s'"
      by (auto simp: bind_eq_Some_conv)
    from F [OF a] TL [OF b] have "factor (Suc n) (consume s) = Some s1" "term_loop (Suc n) s1 = Some s'" .
    with True show ?thesis
      by (subst term_loop.simps) (simp del: factor.simps term_loop.simps)
  next
    case False
    with r show ?thesis by simp
  qed
  have 5: "factor (Suc (Suc n)) s = Some s'" if r: "factor (Suc n) s = Some s'" for s s'
  proof (cases "\<exists>ty. current_token s = Some (ty, ''('') \<and> ty \<noteq> ''IDENTIFIER'' \<and>
                  ty \<noteq> ''CONSTANT_INT'' \<and> ty \<noteq> ''CONSTANT_FLOAT''")
    case True
    then obtain ty where c: "current_token s = Some (ty, ''('')" "ty \<noteq> ''IDENTIFIER''"
      "ty \<noteq> ''CONSTANT_INT''" "ty \<noteq> ''CONSTANT_FLOAT''" by blast
    with r obtain s1 where s1: "expression n (expect ''PUNCTUATOR'' ''('' s) = Some s1"
      and s': "s' = expect ''PUNCTUATOR'' '')'' s1"
      by (auto simp: bind_eq_Some_conv)
    from E [OF s1] c s' show ?thesis
      by (subst factor.simps) (simp del: expression.simps)
  next
    case False
    from factor_leaf [OF False, of "Suc n" n] r show ?thesis by simp
  qed
  show ?case
  proof (intro allI conjI impI)
    fix s s'
    show "expression (Suc n) s = Some s' \<Longrightarrow> expression (Suc (Suc n)) s = Some s'" by (rule 1)
    show "expression_loop (Suc n) s = Some s' \<Longrightarrow> expression_loop (Suc (Suc n)) s = Some s'"
      by (rule 2)
    show "term' (Suc n) s = Some s' \<Longrightarrow> term' (Suc (Suc n)) s = Some s'" by (rule 3)
    show "term_loop (Suc n) s = Some s' \<Longrightarrow> term_loop (Suc (Suc n)) s = Some s'" by (rule 4)
    show "factor (Suc n) s = Some s' \<Longrightarrow> factor (Suc (Suc n)) s = Some s'" by (rule 5)
  qed
qed

lemmas expression_mono = expression_mono_all [rule_format, THEN conjunct1, rule_format]

lemma identifier_list_loop_mono:
  "identifier_list_loop n s = Some s' \<Longrightarrow> identifier_list_loop (Suc n) s = Some s'"
proof (induction n arbitrary: s)
  case 0
  then show ?case by simp
next
  case (Suc n)
  show ?case
  proof (cases "current_value_in ['',''] s")
    case True
    with Suc.prems have
      "identifier_list_loop n (expect_type ''IDENTIFIER'' (expect ''PUNCTUATOR'' '','' s)) = Some s'"
      by simp
    from Suc.IH [OF this] True show ?thesis
      by (subst identifier_list_loop.simps) (simp del: identifier_list_loop.simps)
  next
    case False
    with Suc.prems show ?thesis by simp
  qed
qed

lemma output_list_loop_mono:
  "output_list_loop n s = Some s' \<Longrightarrow> output_list_loop (Suc n) s = Some s'"
proof (induction n arbitrary: s)
  case 0
  then show ?case by simp
next
  case (Suc n)
  show ?case
  proof (cases "current_value_in [''<<''] s")
    case True
    with Suc.prems have
      "output_list_loop n (output_item (expect ''OPERATOR'' ''<<'' s)) = Some s'"
      by simp
    from Suc.IH [OF this] True show ?thesis
      by (subst output_list_loop.simps) (simp del: output_list_loop.simps)
  next
    case False
    with Suc.prems show ?thesis by simp
  qed
qed

lemma declaration_statement_mono:
  "declaration_statement n s = Some s' \<Longrightarrow> declaration_statement (Suc n) s = Some s'"
  unfolding declaration_statement_def identifier_list_def by (rule identifier_list_loop_mono)

lemma assignment_statement_mono:
  "assignment_statement n s = Some s' \<Longrightarrow> assignment_statement (Suc n) s = Some s'"
  unfolding assignment_statement_def by (rule expression_mono)

lemma output_statement_mono:
  "output_statement n s = Some s' \<Longrightarrow> output_statement (Suc n) s = Some s'"
  unfolding output_statement_def output_list_def by (rule output_list_loop_mono)

lemma return_statement_mono:
  "return_statement n s = Some s' \<Longrightarrow> return_statement (Suc n) s = Some s'"
  unfolding return_statement_def by (rule expression_mono)

lemma condition_mono:
  assumes "condition n s = Some s'"
  shows "condition (Suc n) s = Some s'"
proof -
  from assms obtain s1 where a: "expression n s = Some s1"
    and b: "expression n (compare_op s1) = Some s'"
    by (auto simp: condition_def bind_eq_Some_conv)
  from expression_mono [OF a] expression_mono [OF b] show ?thesis
    by (simp add: condition_def del: expression.simps)
qed

lemma statement_mono_all:
  "\<forall>s s'. (block n s = Some s' \<longrightarrow> block (Suc n) s = Some s') \<and>
           (statement_list n s = Some s' \<longrightarrow> statement_list (Suc n) s = Some s') \<and>
           (statement n s = Some s' \<longrightarrow> statement (Suc n) s = Some s') \<and>
           (if_statement n s = Some s' \<longrightarrow> if_statement (Suc n) s = Some s')"
proof (induction n)
  case 0
  show ?case by simp
next
  case (Suc n)
  have B: "block (Suc n) s = Some s'" if "block n s = Some s'" for s s'
    using Suc that by blast
  have SL: "statement_list (Suc n) s = Some s'" if "statement_list n s = Some s'" for s s'
    using Suc that by blast
  have ST: "statement (Suc n) s = Some s'" if "statement n s = Some s'" for s s'
    using Suc that by blast
  have IFS: "if_statement (Suc n) s = Some s'" if "if_statement n s = Some s'" for s s'
    using Suc that by blast
  have 1: "block (Suc (Suc n)) s = Some s'" if r: "block (Suc n) s = Some s'" for s s'
  proof -
    from r obtain s1 where a: "statement_list n (expect ''PUNCTUATOR'' ''{'' s) = Some s1"
      and b: "s' = expect ''PUNCTUATOR'' ''}'' s1"
      by (auto simp: bind_eq_Some_conv)
    from SL [OF a] b show ?thesis
      by (subst block.simps) (simp del: statement_list.simps)
  qed
  have 2: "statement_list (Suc (Suc n)) s = Some s'"
    if r: "statement_list (Suc n) s = Some s'" for s s'
  proof (cases "current_token s \<noteq> None \<and> \<not> current_value_in [''}''] s")
    case True
    with r obtain s1 where a: "statement n s = Some s1"
      and b: "(if errors s1 \<noteq> [] then Some s1 else statement_list n s1) = Some s'"
      by (auto simp: bind_eq_Some_conv)
    have "(if errors s1 \<noteq> [] then Some s1 else statement_list (Suc n) s1) = Some s'"
      using b SL by (auto split: if_splits simp del: statement_list.simps)
    with ST [OF a] True show ?thesis
      by (subst statement_list.simps) (simp del: statement_list.simps statement.simps)
  next
    case False
    with r show ?thesis by auto
  qed
  have 3: "statement (Suc (Suc n)) s = Some s'" if r: "statement (Suc n) s = Some s'" for s s'
  proof (cases s rule: statement_branches)
    case eof
    from r show ?thesis unfolding statement_eof [OF eof] .
  next
    case (decl v)
    from r [unfolded statement_decl [OF decl]]
    obtain s1 where a: "declaration_statement n s = Some s1"
      and b: "s' = expect ''PUNCTUATOR'' '';'' s1"
      by (auto simp: bind_eq_Some_conv)
    from declaration_statement_mono [OF a] b show ?thesis
      unfolding statement_decl [OF decl] by simp
  next
    case (assign v)
    from r [unfolded statement_assign [OF assign]]
    obtain s1 where a: "assignment_statement n s = Some s1"
      and b: "s' = expect ''PUNCTUATOR'' '';'' s1"
      by (auto simp: bind_eq_Some_conv)
    from assignment_statement_mono [OF a] b show ?thesis
      unfolding statement_assign [OF assign] by simp
  next
    case (outp v)
    from r [unfolded statement_output [OF outp]]
    obtain s1 where a: "output_statement n s = Some s1"
      and b: "s' = expect ''PUNCTUATOR'' '';'' s1"
      by (auto simp: bind_eq_Some_conv)
    from output_statement_mono [OF a] b show ?thesis
      unfolding statement_output [OF outp] by simp
  next
    case (bad_next v)
    from r show ?thesis unfolding statement_bad_next [OF bad_next] .
  next
    case (last_tok v)
    from r show ?thesis unfolding statement_last [OF last_tok] .
  next
    case ifs
    from r [unfolded statement_if [OF ifs]] have "if_statement n s = Some s'" .
    from IFS [OF this] show ?thesis unfolding statement_if [OF ifs] .
  next
    case ret
    from r [unfolded statement_return [OF ret]]
    obtain s1 where a: "return_statement n s = Some s1"
      and b: "s' = expect ''PUNCTUATOR'' '';'' s1"
      by (auto simp: bind_eq_Some_conv)
    from return_statement_mono [OF a] b show ?thesis
      unfolding statement_return [OF ret] by simp
  next
    case (other ty v)
    from r show ?thesis unfolding statement_other [OF other] .
  qed
  have 4: "if_statement (Suc (Suc n)) s = Some s'" if r: "if_statement (Suc n) s = Some s'" for s s'
  proof -
    let ?a = "expect ''PUNCTUATOR'' ''('' (expect ''KEYWORD'' ''if'' s)"
    from r obtain s1 s2 where a: "condition n ?a = Some s1"
      and b: "block n (expect ''PUNCTUATOR'' '')'' s1) = Some s2"
      and c: "(if current_value_in [''else''] s2 then block n (expect ''KEYWORD'' ''else'' s2)
                else Some s2) = Some s'"
      by (auto simp: bind_eq_Some_conv)
    have c': "(if current_value_in [''else''] s2 then block (Suc n) (expect ''KEYWORD'' ''else'' s2)
                else Some s2) = Some s'"
      using c B by (auto split: if_splits simp del: block.simps)
    from condition_mono [OF a] B [OF b] c' show ?thesis
      by (subst if_statement.simps) (simp del: block.simps)
  qed
  show ?case
  proof (intro allI conjI impI)
    fix s s'
    show "block (Suc n) s = Some s' \<Longrightarrow> block (Suc (Suc n)) s = Some s'" by (rule 1)
    show "statement_list (Suc n) s = Some s' \<Longrightarrow> statement_list (Suc (Suc n)) s = Some s'"
      by (rule 2)
    show "statement (Suc n) s = Some s' \<Longrightarrow> statement (Suc (Suc n)) s = Some s'" by (rule 3)
    show "if_statement (Suc n) s = Some s' \<Longrightarrow> if_statement (Suc (Suc n)) s = Some s'"
      by (rule 4)
  qed
qed

lemmas block_mono = statement_mono_all [rule_format, THEN conjunct1, rule_format]

lemma parse_mono_step: "parse n toks = Some r \<Longrightarrow> parse (Suc n) toks = Some r"
proof -
  assume p: "parse n toks = Some r"
  let ?d = "expect ''PUNCTUATOR'' '')'' (expect ''PUNCTUATOR'' ''(''
              (expect_type ''IDENTIFIER'' (type' (init toks))))"
  from p obtain s1 where a: "block n ?d = Some s1"
    by (auto simp: parse_def program_def function_definition_def bind_eq_Some_conv)
  from block_mono [OF a] a p show ?thesis
    by (simp add: parse_def program_def function_definition_def)
qed

lemma parse_mono: "parse n toks = Some r \<Longrightarrow> parse (n + k) toks = Some r"
  by (induction k) (auto intro: parse_mono_step)


section \<open>Properties of the scanner and the walker\<close>



text \<open>
  C2. A call of \<open>match\<close> (the spec's \<open>expect\<close>) at a current token of the expected type
  and, when a value is given, of that value, returns true, moves the cursor forward by
  exactly one token and appends no error. In every other case (no current token, or a token
  that does not match) it returns false, appends exactly one error, and leaves the cursor
  and the current token where they were.
\<close>

theorem match_consumes_or_logs:
  "(current_token s = Some (ty, v) \<and> ty = expected_type \<and>
      (expected_value = None \<or> expected_value = Some v)
    \<longrightarrow> match expected_type expected_value s = (True, consume s)
        \<and> token_index (consume s) = token_index s + 1
        \<and> errors (consume s) = errors s)
   \<and> (current_token s = None \<or>
       (current_token s = Some (ty, v) \<and>
        \<not> (ty = expected_type \<and> (expected_value = None \<or> expected_value = Some v)))
    \<longrightarrow> fst (match expected_type expected_value s) = False
        \<and> (\<exists>m. errors (snd (match expected_type expected_value s)) = errors s @ [m])
        \<and> token_index (snd (match expected_type expected_value s)) = token_index s
        \<and> current_token (snd (match expected_type expected_value s)) = current_token s
        \<and> tokens (snd (match expected_type expected_value s)) = tokens s)"
  by (auto simp: match_def consume_def error_def Let_def)

theorem match_consumes_or_logs_witness:
  "match ''IDENTIFIER'' None (init [(''IDENTIFIER'', ''x'')]) = (True, consume (init [(''IDENTIFIER'', ''x'')]))
   \<and> token_index (consume (init [(''IDENTIFIER'', ''x'')])) = 1
   \<and> fst (match ''PUNCTUATOR'' (Some '';'') (init [(''IDENTIFIER'', ''x'')])) = False
   \<and> token_index (snd (match ''PUNCTUATOR'' (Some '';'') (init [(''IDENTIFIER'', ''x'')]))) = 0
   \<and> length (errors (snd (match ''PUNCTUATOR'' (Some '';'') (init [(''IDENTIFIER'', ''x'')])))) = 1"
  using match_consumes_or_logs [of "init [(''IDENTIFIER'', ''x'')]" "''IDENTIFIER''" "''x''" "''IDENTIFIER''" None]
        match_consumes_or_logs [of "init [(''IDENTIFIER'', ''x'')]" "''IDENTIFIER''" "''x''" "''PUNCTUATOR''" "Some '';''"]
  by (auto simp: init_def)




text \<open>
  C4. The loop of \<open>statement_list\<close> runs only while there is a current token whose value
  is not \<open>}\<close>; otherwise it returns the state unchanged. After a statement it stops at
  once when the error log is not empty, and goes round again only when the log is empty.
  So it can end only with a non-empty log, with no current token, or at a \<open>}\<close>.
\<close>

theorem statement_list_stops:
  "(current_token s = None \<or> current_value_in [''}''] s
      \<longrightarrow> statement_list (Suc n) s = Some s)
   \<and> (current_token s \<noteq> None \<and> \<not> current_value_in [''}''] s \<and> statement n s = Some s1 \<and>
       errors s1 \<noteq> []
      \<longrightarrow> statement_list (Suc n) s = Some s1)
   \<and> (current_token s \<noteq> None \<and> \<not> current_value_in [''}''] s \<and> statement n s = Some s1 \<and>
       errors s1 = []
      \<longrightarrow> statement_list (Suc n) s = statement_list n s1)
   \<and> (current_token s \<noteq> None \<and> \<not> current_value_in [''}''] s \<and> statement n s = None
      \<longrightarrow> statement_list (Suc n) s = None)
   \<and> (statement_list m s = Some s2
      \<longrightarrow> errors s2 \<noteq> [] \<or> current_token s2 = None \<or> current_value_in [''}''] s2)"
  using statement_list_exit [of m s s2] by auto

theorem statement_list_stops_witness:
  "statement_list (Suc 0) (init []) = Some (init [])
   \<and> statement_list (Suc 1) (init [(''IDENTIFIER'', ''x''), (''PUNCTUATOR'', '';'')]) =
       Some (error ''Expected AssignmentStatement or OutputStatement.''
              (init [(''IDENTIFIER'', ''x''), (''PUNCTUATOR'', '';'')]))
   \<and> statement_list (Suc 5)
         (init [(''KEYWORD'', ''return''), (''CONSTANT_INT'', ''0''), (''PUNCTUATOR'', '';''),
                (''PUNCTUATOR'', ''}'')]) =
       statement_list 5
         \<lparr>tokens = [(''KEYWORD'', ''return''), (''CONSTANT_INT'', ''0''), (''PUNCTUATOR'', '';''),
                    (''PUNCTUATOR'', ''}'')],
          token_index = 3, current_token = Some (''PUNCTUATOR'', ''}''), errors = []\<rparr>"
proof -
  let ?A = "init [(''IDENTIFIER'', ''x''), (''PUNCTUATOR'', '';'')]"
  let ?E = "error ''Expected AssignmentStatement or OutputStatement.'' ?A"
  let ?B = "init [(''KEYWORD'', ''return''), (''CONSTANT_INT'', ''0''), (''PUNCTUATOR'', '';''),
                  (''PUNCTUATOR'', ''}'')]"
  let ?C = "\<lparr>tokens = [(''KEYWORD'', ''return''), (''CONSTANT_INT'', ''0''), (''PUNCTUATOR'', '';''),
                    (''PUNCTUATOR'', ''}'')],
          token_index = 3, current_token = Some (''PUNCTUATOR'', ''}''), errors = []\<rparr>"
  have a0: "current_token (init []) = None \<or> current_value_in [''}''] (init [])"
    by (simp add: init_def)
  have a1: "current_token ?A \<noteq> None \<and> \<not> current_value_in [''}''] ?A \<and>
            statement 1 ?A = Some ?E \<and> errors ?E \<noteq> []"
    by code_simp
  have a2: "current_token ?B \<noteq> None \<and> \<not> current_value_in [''}''] ?B \<and>
            statement 5 ?B = Some ?C \<and> errors ?C = []"
    by code_simp
  from statement_list_stops [of "init []" 0 "init []" 0 "init []", THEN conjunct1, rule_format, OF a0]
  have 1: "statement_list (Suc 0) (init []) = Some (init [])" .
  from statement_list_stops [of ?A 1 ?E 0 ?A, THEN conjunct2, THEN conjunct1, rule_format, OF a1]
  have 2: "statement_list (Suc 1) ?A = Some ?E" .
  from statement_list_stops [of ?B 5 ?C 0 ?B, THEN conjunct2, THEN conjunct2, THEN conjunct1,
       rule_format, OF a2]
  have 3: "statement_list (Suc 5) ?B = statement_list 5 ?C" .
  from 1 2 3 show ?thesis by (intro conjI)
qed

text \<open>
  C5. The text \<open>int main ( ) { x = 5 }\<close> scans to nine tokens; the walk over them returns
  (within a call depth of six, and with the same result for every larger bound), the
  verdict is false and the log holds exactly one error, raised at token index 8 where \<open>;\<close>
  was expected and \<open>}\<close> was found.
\<close>

theorem parse_missing_semicolon:
  "tokenize ''int main ( ) { x = 5 }'' =
     [(''KEYWORD'', ''int''), (''IDENTIFIER'', ''main''), (''PUNCTUATOR'', ''(''),
      (''PUNCTUATOR'', '')''), (''PUNCTUATOR'', ''{''), (''IDENTIFIER'', ''x''),
      (''OPERATOR'', ''=''), (''CONSTANT_INT'', ''5''), (''PUNCTUATOR'', ''}'')]
   \<and> parse (6 + k) (tokenize ''int main ( ) { x = 5 }'') =
     Some (False,
       \<lparr>tokens = tokenize ''int main ( ) { x = 5 }'', token_index = 9, current_token = None,
        errors = [''Syntax Error at token index 8: Expected PUNCTUATOR (;), but found <PUNCTUATOR, }>.'']\<rparr>)"
proof -
  have t: "tokenize ''int main ( ) { x = 5 }'' =
     [(''KEYWORD'', ''int''), (''IDENTIFIER'', ''main''), (''PUNCTUATOR'', ''(''),
      (''PUNCTUATOR'', '')''), (''PUNCTUATOR'', ''{''), (''IDENTIFIER'', ''x''),
      (''OPERATOR'', ''=''), (''CONSTANT_INT'', ''5''), (''PUNCTUATOR'', ''}'')]"
    by code_simp
  have "parse 6 (tokenize ''int main ( ) { x = 5 }'') =
     Some (False,
       \<lparr>tokens = tokenize ''int main ( ) { x = 5 }'', token_index = 9, current_token = None,
        errors = [''Syntax Error at token index 8: Expected PUNCTUATOR (;), but found <PUNCTUATOR, }>.'']\<rparr>)"
    by code_simp
  from t parse_mono [OF this, of k] show ?thesis by (intro conjI)
qed

text \<open>
  C6. Wherever the KEYWORD rule and the IDENTIFIER rule both match at the start of the
  remaining text, the rule loop returns KEYWORD with the keyword's match, and the scanning
  loop appends that KEYWORD token and goes on with the text behind it. The text \<open>if\<close>
  scans to the single token \<open>(KEYWORD, if)\<close>.
\<close>

theorem keyword_before_identifier:
  "(match_keyword code = Some n \<and> match_identifier code = Some m
      \<longrightarrow> scan_rules TOKEN_TYPES code = Some (''KEYWORD'', n)
          \<and> scan_step code = (Some (''KEYWORD'', take n code), drop n code)
          \<and> tokenize_loop code toks =
              tokenize_loop (drop n code) (toks @ [(''KEYWORD'', take n code)]))
   \<and> tokenize ''if'' = [(''KEYWORD'', ''if'')]"
proof -
  have 1: "scan_rules TOKEN_TYPES code = Some (''KEYWORD'', n)"
    if "match_keyword code = Some n"
    using that by (simp add: TOKEN_TYPES_def)
  have 2: "scan_step code = (Some (''KEYWORD'', take n code), drop n code)"
    if "match_keyword code = Some n"
    using 1 [OF that] by (simp add: scan_step_def)
  have 3: "tokenize_loop code toks =
              tokenize_loop (drop n code) (toks @ [(''KEYWORD'', take n code)])"
    if k: "match_keyword code = Some n"
  proof -
    from match_keyword_lstrip [OF k] have ne: "code \<noteq> []" and ls: "lstrip code = code" by simp_all
    from tokenize_loop_step [of code toks] ne ls 2 [OF k] show ?thesis by simp
  qed
  have 4: "tokenize ''if'' = [(''KEYWORD'', ''if'')]" by code_simp
  from 1 2 3 4 show ?thesis by blast
qed

theorem keyword_before_identifier_witness:
  "match_keyword ''if (a)'' = Some 2 \<and> match_identifier ''if (a)'' = Some 2
   \<and> scan_rules TOKEN_TYPES ''if (a)'' = Some (''KEYWORD'', 2)
   \<and> scan_step ''if (a)'' = (Some (''KEYWORD'', take 2 ''if (a)''), drop 2 ''if (a)'')"
proof -
  have h: "match_keyword ''if (a)'' = Some 2 \<and> match_identifier ''if (a)'' = Some 2"
    by code_simp
  from keyword_before_identifier [of "''if (a)''" 2 2 "[]", THEN conjunct1, rule_format, OF h] h
  show ?thesis by blast
qed

text \<open>
  C7. A parser starts with its cursor at 0, inside the token sequence, and with the
  current token the cursor points at. From such a state \<open>match\<close> never moves the cursor
  back and keeps it within the sequence; \<open>consume\<close>, which every caller guards by a test
  for a current token, moves it forward by one and keeps it within the sequence; and so does
  every procedure of the walk that returns. The state \<open>parse\<close> ends in has its cursor
  between 0 and the length of the token sequence.
\<close>

theorem cursor_monotone:
  "cursor_ok (init toks)
   \<and> (cursor_ok s \<longrightarrow>
        token_index s \<le> token_index (snd (match et ev s))
        \<and> token_index (snd (match et ev s)) \<le> length (tokens s)
        \<and> cursor_ok (snd (match et ev s)))
   \<and> (cursor_ok s \<and> current_token s \<noteq> None \<longrightarrow>
        token_index (consume s) = token_index s + 1
        \<and> token_index (consume s) \<le> length (tokens s)
        \<and> cursor_ok (consume s))
   \<and> (cursor_ok s \<longrightarrow>
        (\<forall>q \<in> set [type', compare_op, output_item].
           token_index s \<le> token_index (q s) \<and> token_index (q s) \<le> length (tokens s)
           \<and> cursor_ok (q s)))
   \<and> (cursor_ok s \<longrightarrow>
        (\<forall>p \<in> set procedures. \<forall>n s'. p n s = Some s' \<longrightarrow>
           token_index s \<le> token_index s' \<and> token_index s' \<le> length (tokens s)
           \<and> cursor_ok s'))
   \<and> (\<forall>n success s'. parse n toks = Some (success, s') \<longrightarrow>
        token_index s' \<le> length toks \<and> cursor_ok s')"
proof -
  have b: "token_index s \<le> token_index s' \<and> token_index s' \<le> length (tokens s) \<and> cursor_ok s'"
    if "later s s'" for s s'
    using that by (auto simp: later_def cursor_ok_def)
  have 1: "cursor_ok s \<longrightarrow>
        token_index s \<le> token_index (snd (match et ev s))
        \<and> token_index (snd (match et ev s)) \<le> length (tokens s)
        \<and> cursor_ok (snd (match et ev s))"
    using b [OF later_match] by blast
  have 2: "cursor_ok s \<and> current_token s \<noteq> None \<longrightarrow>
        token_index (consume s) = token_index s + 1
        \<and> token_index (consume s) \<le> length (tokens s)
        \<and> cursor_ok (consume s)"
    using b [OF later_consume] by (simp add: index_consume)
  have 3: "cursor_ok s \<longrightarrow>
        (\<forall>q \<in> set [type', compare_op, output_item].
           token_index s \<le> token_index (q s) \<and> token_index (q s) \<le> length (tokens s)
           \<and> cursor_ok (q s))"
    using b [OF later_type] b [OF later_compare_op] b [OF later_output_item] by simp
  have 4: "cursor_ok s \<longrightarrow>
        (\<forall>p \<in> set procedures. \<forall>n s'. p n s = Some s' \<longrightarrow>
           token_index s \<le> token_index s' \<and> token_index s' \<le> length (tokens s)
           \<and> cursor_ok s')"
    using b [OF later_procedures] by blast
  have 5: "token_index s' \<le> length toks \<and> cursor_ok s'"
    if r: "parse n toks = Some (success, s')" for n success s'
  proof -
    from r obtain s1 where p: "program n (init toks) = Some s1"
      and s: "s' = (case current_token s1 of
                   None \<Rightarrow> s1
                 | Some (token_type, token_value) \<Rightarrow>
                     error (''Unexpected token <'' @ token_type @ '', '' @ token_value
                              @ ''> after program end.'') s1)"
      by (auto simp: parse_def bind_eq_Some_conv Let_def)
    from cursor_ok_init p have l: "later (init toks) s1" by (rule later_program)
    have "later s1 s'" unfolding s using later_ok [OF l]
      by (auto split: option.splits intro: later_refl later_error)
    with l have "later (init toks) s'" by (rule later_trans)
    from b [OF this] show ?thesis by (simp add: init_def)
  qed
  from cursor_ok_init 1 2 3 4 5 show ?thesis by blast
qed

theorem cursor_monotone_witness:
  "cursor_ok (init [(''KEYWORD'', ''return''), (''CONSTANT_INT'', ''0''), (''PUNCTUATOR'', '';'')])
   \<and> token_index (consume (init [(''KEYWORD'', ''return''), (''CONSTANT_INT'', ''0''), (''PUNCTUATOR'', '';'')])) = 1
   \<and> cursor_ok (snd (match ''KEYWORD'' (Some ''return'')
        (init [(''KEYWORD'', ''return''), (''CONSTANT_INT'', ''0''), (''PUNCTUATOR'', '';'')])))
   \<and> statement 5 (init [(''KEYWORD'', ''return''), (''CONSTANT_INT'', ''0''), (''PUNCTUATOR'', '';'')]) =
       Some \<lparr>tokens = [(''KEYWORD'', ''return''), (''CONSTANT_INT'', ''0''), (''PUNCTUATOR'', '';'')],
             token_index = 3, current_token = None, errors = []\<rparr>
   \<and> cursor_ok \<lparr>tokens = [(''KEYWORD'', ''return''), (''CONSTANT_INT'', ''0''), (''PUNCTUATOR'', '';'')],
             token_index = 3, current_token = None, errors = []\<rparr>
   \<and> cursor_ok \<lparr>tokens = tokenize ''int main ( ) { return 0 ; }'', token_index = 9,
                  current_token = None, errors = []\<rparr>"
proof -
  let ?T = "[(''KEYWORD'', ''return''), (''CONSTANT_INT'', ''0''), (''PUNCTUATOR'', '';'')]"
  let ?S = "\<lparr>tokens = ?T, token_index = 3, current_token = None, errors = []\<rparr>"
  let ?U = "tokenize ''int main ( ) { return 0 ; }''"
  let ?V = "\<lparr>tokens = ?U, token_index = 9, current_token = None, errors = []\<rparr>"
  note m = cursor_monotone [of ?T "init ?T" "''KEYWORD''" "Some ''return''"]
  note m2 = cursor_monotone [of ?U "init ?T" "''KEYWORD''" "Some ''return''"]
  have ok: "cursor_ok (init ?T)" using m by (rule conjunct1)
  have cur: "current_token (init ?T) \<noteq> None" by (simp add: init_def)
  have st: "statement 5 (init ?T) = Some ?S" by code_simp
  have pr: "parse 6 ?U = Some (True, ?V)" by code_simp
  have mem: "statement \<in> set procedures" by (simp add: procedures_def)
  note c2 = conjunct2
  from m [THEN c2, THEN conjunct1, rule_format, OF ok]
  have 1: "cursor_ok (snd (match ''KEYWORD'' (Some ''return'') (init ?T)))" by (rule conjunct2 [THEN conjunct2])
  from m [THEN c2, THEN c2, THEN conjunct1, rule_format, OF conjI [OF ok cur]]
  have 2: "token_index (consume (init ?T)) = token_index (init ?T) + 1" by (rule conjunct1)
  from m [THEN c2, THEN c2, THEN c2, THEN c2, THEN conjunct1, rule_format, OF ok mem st]
  have 3: "cursor_ok ?S" by (rule conjunct2 [THEN conjunct2])
  from m2 [THEN c2, THEN c2, THEN c2, THEN c2, THEN c2, rule_format, OF pr]
  have 4: "cursor_ok ?V" by (rule conjunct2)
  have i: "token_index (init ?T) = 0" by (simp add: init_def)
  from ok 1 2 [unfolded i] st 3 4 show ?thesis by (intro conjI) simp_all
qed

text \<open>
  C8. The scanning loop is a total function: its recursion is on a text that gets strictly
  shorter. One pass over a non-empty text with no leading whitespace either takes a
  non-empty token off its front (the token and the rest make up the text again) or drops
  exactly the first character; \<open>tokenize_loop\<close> is that pass repeated after \<open>lstrip\<close>,
  which never lengthens the text. No token of \<open>tokenize\<close> has an empty value.
\<close>

theorem scan_progress:
  "(\<forall>tok \<in> set (tokenize code). snd tok \<noteq> [])
   \<and> length (lstrip code) \<le> length code
   \<and> (code \<noteq> [] \<longrightarrow>
        (case scan_step code of
           (Some (token_type, v), rest) \<Rightarrow> v \<noteq> [] \<and> v @ rest = code \<and> length rest < length code
         | (None, rest) \<Rightarrow> rest = tl code \<and> length rest + 1 = length code))
   \<and> (code \<noteq> [] \<and> lstrip code \<noteq> [] \<longrightarrow>
        tokenize_loop code toks =
          (case scan_step (lstrip code) of
             (Some tok, rest) \<Rightarrow> tokenize_loop rest (toks @ [tok])
           | (None, rest) \<Rightarrow> tokenize_loop rest toks))
   \<and> (code = [] \<or> lstrip code = [] \<longrightarrow> tokenize_loop code toks = toks)"
proof -
  have 1: "\<forall>tok \<in> set (tokenize code). snd tok \<noteq> []"
    unfolding tokenize_def by (rule tokenize_loop_nonempty) simp
  have 3: "case scan_step code of
           (Some (token_type, v), rest) \<Rightarrow> v \<noteq> [] \<and> v @ rest = code \<and> length rest < length code
         | (None, rest) \<Rightarrow> rest = tl code \<and> length rest + 1 = length code"
    if ne: "code \<noteq> []"
  proof (cases "scan_step code")
    case (Pair t rest)
    show ?thesis
    proof (cases t)
      case None
      with Pair scan_step_None [of code rest] ne show ?thesis
        by (cases code) (simp_all add: drop_Suc)
    next
      case (Some tok)
      obtain ty v where tok: "tok = (ty, v)" by (cases tok)
      from Pair Some tok scan_step_Some [of code ty v rest]
      obtain n where n: "0 < n" "v = take n code" "rest = drop n code" by auto
      with ne have "v \<noteq> []" "v @ rest = code" "length rest < length code" by auto
      with Pair Some tok show ?thesis by simp
    qed
  qed
  have 5: "tokenize_loop code toks = toks" if "code = [] \<or> lstrip code = []"
    using that by (subst tokenize_loop.simps) (auto simp: Let_def)
  from 1 length_lstrip [of code] 3 tokenize_loop_step [of code toks] 5 show ?thesis by blast
qed

theorem scan_progress_witness:
  "snd (hd (tokenize ''x = 5 ;'')) \<noteq> []
   \<and> tokenize ''x = 5 ;'' =
       [(''IDENTIFIER'', ''x''), (''OPERATOR'', ''=''), (''CONSTANT_INT'', ''5''), (''PUNCTUATOR'', '';'')]
   \<and> scan_step ''x = 5 ;'' = (Some (''IDENTIFIER'', ''x''), '' = 5 ;'')
   \<and> scan_step ''@x'' = (None, ''x'')
   \<and> tokenize_loop '' '' [] = []"
proof -
  have a: "tokenize ''x = 5 ;'' =
       [(''IDENTIFIER'', ''x''), (''OPERATOR'', ''=''), (''CONSTANT_INT'', ''5''), (''PUNCTUATOR'', '';'')]"
    by code_simp
  have b: "scan_step ''x = 5 ;'' = (Some (''IDENTIFIER'', ''x''), '' = 5 ;'')" by code_simp
  have c: "scan_step ''@x'' = (None, ''x'')" by code_simp
  have d: "'' '' = [] \<or> lstrip '' '' = []" by code_simp
  from scan_progress [of "''x = 5 ;''" "[]", THEN conjunct1]
  have "\<forall>tok \<in> set (tokenize ''x = 5 ;''). snd tok \<noteq> []" .
  moreover have "hd (tokenize ''x = 5 ;'') \<in> set (tokenize ''x = 5 ;'')" by (simp add: a)
  ultimately have 1: "snd (hd (tokenize ''x = 5 ;'')) \<noteq> []" by (rule bspec)
  from scan_progress [of "'' ''" "[]", THEN conjunct2, THEN conjunct2, THEN conjunct2, THEN conjunct2,
       rule_format, OF d]
  have 2: "tokenize_loop '' '' [] = []" .
  from 1 a b c 2 show ?thesis by (intro conjI)
qed




text \<open>
  C10. On the empty token sequence the walk returns (for every depth bound from 2 on)
  with the verdict false. The log starts with the missing-type error at token index 0,
  followed by the end-of-file errors of the identifier, the two parentheses and the two
  braces that \<open>function_definition\<close> and \<open>block\<close> expect.
\<close>

theorem parse_empty:
  "parse (2 + k) [] =
     Some (False,
       \<lparr>tokens = [], token_index = 0, current_token = None,
        errors =
          [''Syntax Error at token index 0: Expected a Type (int, float, double, char).'',
           ''Syntax Error at token index 0: Expected IDENTIFIER , but found end of file.'',
           ''Syntax Error at token index 0: Expected PUNCTUATOR ((), but found end of file.'',
           ''Syntax Error at token index 0: Expected PUNCTUATOR ()), but found end of file.'',
           ''Syntax Error at token index 0: Expected PUNCTUATOR ({), but found end of file.'',
           ''Syntax Error at token index 0: Expected PUNCTUATOR (}), but found end of file.'']\<rparr>)"
proof -
  have "parse 2 [] =
     Some (False,
       \<lparr>tokens = [], token_index = 0, current_token = None,
        errors =
          [''Syntax Error at token index 0: Expected a Type (int, float, double, char).'',
           ''Syntax Error at token index 0: Expected IDENTIFIER , but found end of file.'',
           ''Syntax Error at token index 0: Expected PUNCTUATOR ((), but found end of file.'',
           ''Syntax Error at token index 0: Expected PUNCTUATOR ()), but found end of file.'',
           ''Syntax Error at token index 0: Expected PUNCTUATOR ({), but found end of file.'',
           ''Syntax Error at token index 0: Expected PUNCTUATOR (}), but found end of file.'']\<rparr>)"
    by code_simp
  from parse_mono [OF this, of k] show ?thesis .
qed

end
